theory Spec2Isabelle
  imports Main "HOL-Library.AList"
begin

section \<open>Python containers\<close>

text \<open>
  A Python \<open>dict\<close> is an association list with distinct keys, in insertion order:
  \<open>d.get(k, dflt)\<close> is \<open>dict_get\<close>, \<open>d[k] = v\<close> is \<open>AList.update\<close>
  (it overwrites in place or appends a new key), \<open>d.keys()\<close> is \<open>map fst\<close>.

  A Python \<open>set\<close> whose contents are enumerated by the program is the list of its
  elements in the order the interpreter enumerates them. That order is an implementation
  detail of CPython; nothing below depends on it, since the search strategies are stated
  for an arbitrary adjacency table.
\<close>

definition dict_get :: "('k \<times> 'v) list \<Rightarrow> 'k \<Rightarrow> 'v \<Rightarrow> 'v" where
  "dict_get d k dflt = (case map_of d k of None \<Rightarrow> dflt | Some v \<Rightarrow> v)"

definition set_add :: "'a \<Rightarrow> 'a list \<Rightarrow> 'a list" where
  "set_add x s = (if x \<in> set s then s else s @ [x])"

datatype py_error = IndexError | ValueError string

text \<open>
  \<open>random.choice(seq)\<close> returns \<open>seq[i]\<close> for an index \<open>i\<close> below \<open>len(seq)\<close>
  drawn from the generator, and raises \<open>IndexError\<close> on an empty sequence. The raw
  draw is the first argument.
\<close>

definition random_choice :: "nat \<Rightarrow> 'a list \<Rightarrow> py_error + 'a" where
  "random_choice r seq = (if seq = [] then Inl IndexError else Inr (seq ! (r mod length seq)))"

datatype ('r, 's) outcome = Return 'r | Continue 's

section \<open>network.py: the graph model\<close>

record network =
  num_nodes :: int
  resources :: "(string \<times> string list) list"
  edges :: "(string \<times> string) list"
  graph :: "(string \<times> string list) list"
  net_cache :: "(string \<times> string list) list"

text \<open>
  \<open>Network.__init__\<close>: \<open>self.graph\<close> is a \<open>defaultdict(set)\<close>, so
  \<open>self.graph[node1].add(node2)\<close> creates the entry of \<open>node1\<close> when it is missing.
  A neighbour set is listed in the order in which its elements were added; this is one
  of the orders in which the interpreter may enumerate it.
\<close>

definition add_edge :: "string \<times> string \<Rightarrow> (string \<times> string list) list \<Rightarrow> (string \<times> string list) list" where
  "add_edge e g =
     (case e of (node1, node2) \<Rightarrow>
        (let g1 = AList.update node1 (set_add node2 (dict_get g node1 [])) g
         in AList.update node2 (set_add node1 (dict_get g1 node2 [])) g1))"

definition ensure_node :: "string \<Rightarrow> (string \<times> string list) list \<Rightarrow> (string \<times> string list) list" where
  "ensure_node node g = (if node \<notin> fst ` set g then AList.update node [] g else g)"

definition Network_init :: "int \<Rightarrow> (string \<times> string list) list \<Rightarrow> (string \<times> string) list \<Rightarrow> network" where
  "Network_init n res es =
     \<lparr>num_nodes = n, resources = res, edges = es,
      graph = fold ensure_node (map fst res) (fold add_edge es []),
      net_cache = []\<rparr>"

text \<open>
  The methods of \<open>Network\<close> take the object and return their value together with the
  object as they leave it.
\<close>

definition get_neighbors :: "network \<Rightarrow> string \<Rightarrow> string list \<times> network" where
  "get_neighbors self node = (dict_get (graph self) node [], self)"

definition get_degree :: "network \<Rightarrow> string \<Rightarrow> int \<times> network" where
  "get_degree self node =
     (case get_neighbors self node of (ns, self') \<Rightarrow> (int (length ns), self'))"

definition has_resource :: "network \<Rightarrow> string \<Rightarrow> string \<Rightarrow> bool \<times> network" where
  "has_resource self node resource = (resource \<in> set (dict_get (resources self) node []), self)"

definition get_all_nodes :: "network \<Rightarrow> string set \<times> network" where
  "get_all_nodes self = (set (map fst (resources self)), self)"

definition add_to_cache :: "network \<Rightarrow> string \<Rightarrow> string \<Rightarrow> network" where
  "add_to_cache self node resource =
     self\<lparr>net_cache := AList.update node (set_add resource (dict_get (net_cache self) node []))
                          (net_cache self)\<rparr>"

definition get_cache :: "network \<Rightarrow> string \<Rightarrow> string list \<times> network" where
  "get_cache self node = (dict_get (net_cache self) node [], self)"

definition clear_cache :: "network \<Rightarrow> network" where
  "clear_cache self = self\<lparr>net_cache := []\<rparr>"

section \<open>utils/cache.py: the knowledge cache\<close>

record Cache =
  cache :: "string \<rightharpoonup> string set"
  negative_cache :: "string \<rightharpoonup> string set"

definition Cache_init :: Cache where
  "Cache_init = \<lparr>cache = Map.empty, negative_cache = Map.empty\<rparr>"

definition add :: "Cache \<Rightarrow> string \<Rightarrow> string \<Rightarrow> Cache" where
  "add self node resource =
     (let c1 = (if node \<notin> dom (cache self) then (cache self)(node \<mapsto> {}) else cache self);
          c2 = (case c1 node of None \<Rightarrow> c1 | Some s \<Rightarrow> c1(node \<mapsto> insert resource s));
          n2 = (case negative_cache self node of
                  None \<Rightarrow> negative_cache self
                | Some s \<Rightarrow> (negative_cache self)(node \<mapsto> s - {resource}))
      in self\<lparr>cache := c2, negative_cache := n2\<rparr>)"

definition add_negative :: "Cache \<Rightarrow> string \<Rightarrow> string \<Rightarrow> Cache" where
  "add_negative self node resource =
     (let n1 = (if node \<notin> dom (negative_cache self) then (negative_cache self)(node \<mapsto> {})
                else negative_cache self);
          n2 = (case n1 node of None \<Rightarrow> n1 | Some s \<Rightarrow> n1(node \<mapsto> insert resource s))
      in self\<lparr>negative_cache := n2\<rparr>)"

definition has :: "Cache \<Rightarrow> string \<Rightarrow> string \<Rightarrow> bool" where
  "has self node resource = (resource \<in> (case cache self node of None \<Rightarrow> {} | Some s \<Rightarrow> s))"

definition has_negative :: "Cache \<Rightarrow> string \<Rightarrow> string \<Rightarrow> bool" where
  "has_negative self node resource =
     (resource \<in> (case negative_cache self node of None \<Rightarrow> {} | Some s \<Rightarrow> s))"

definition get :: "Cache \<Rightarrow> string \<Rightarrow> string set" where
  "get self node = (case cache self node of None \<Rightarrow> {} | Some s \<Rightarrow> s)"

definition clear :: "Cache \<Rightarrow> Cache" where
  "clear self = self\<lparr>cache := Map.empty, negative_cache := Map.empty\<rparr>"

text \<open>
  \<open>update_from_network\<close> reads \<open>network.resources.items()\<close> and adds every
  (node, resource) pair it finds.
\<close>

definition update_from_network :: "Cache \<Rightarrow> network \<Rightarrow> Cache" where
  "update_from_network self net =
     fold (\<lambda>(node, rs) c. fold (\<lambda>resource c'. add c' node resource) rs c) (resources net) self"

section \<open>The result record\<close>

text \<open>
  Every strategy returns a dict with the keys \<open>found\<close>, \<open>messages\<close>,
  \<open>nodes_visited\<close> and \<open>path\<close>; the key \<open>all_visited\<close> is present in some
  returns only.
\<close>

record result =
  found :: bool
  messages :: int
  nodes_visited :: int
  path :: "string list"
  all_visited :: "string list option"

section \<open>algorithms/flooding.py\<close>

text \<open>
  The local variables of \<open>flooding\<close>, with the network object it was given. The
  \<open>visited\<close> set is kept in insertion order, and \<open>list(visited)\<close> is that list; the
  interpreter may list the same nodes in another order. The theorems about
  \<open>list(visited)\<close> speak of the nodes in it and of their number, never of their order.
\<close>

record fl_state =
  fl_network :: network
  fl_queue :: "(string \<times> int \<times> string list) list"
  fl_visited :: "string list"
  fl_messages :: int
  fl_nodes_visited :: int

text \<open>The body of \<open>for neighbor in neighbors\<close>, for one neighbor.\<close>

definition flooding_visit ::
  "string \<Rightarrow> int \<Rightarrow> int \<Rightarrow> string list \<Rightarrow> string \<Rightarrow> fl_state
     \<Rightarrow> (result \<times> network, fl_state) outcome" where
  "flooding_visit resource ttl depth pth neighbor st =
     (let st1 = st\<lparr>fl_messages := fl_messages st + 1\<rparr> in
      if neighbor \<notin> set (fl_visited st1) then
        (let st2 = st1\<lparr>fl_visited := set_add neighbor (fl_visited st1),
                        fl_nodes_visited := fl_nodes_visited st1 + 1\<rparr>;
             new_path = pth @ [neighbor]
         in case has_resource (fl_network st2) neighbor resource of (hr, net') \<Rightarrow>
           (let st3 = st2\<lparr>fl_network := net'\<rparr> in
            if hr then
              Return (\<lparr>found = True, messages = fl_messages st3,
                       nodes_visited = fl_nodes_visited st3, path = new_path,
                       all_visited = Some (fl_visited st3)\<rparr>, fl_network st3)
            else if depth + 1 < ttl then
              Continue (st3\<lparr>fl_queue := fl_queue st3 @ [(neighbor, depth + 1, new_path)]\<rparr>)
            else Continue st3))
      else Continue st1)"

fun flooding_for ::
  "string \<Rightarrow> int \<Rightarrow> int \<Rightarrow> string list \<Rightarrow> string list \<Rightarrow> fl_state
     \<Rightarrow> (result \<times> network, fl_state) outcome" where
  "flooding_for resource ttl depth pth [] st = Continue st"
| "flooding_for resource ttl depth pth (neighbor # rest) st =
     (case flooding_visit resource ttl depth pth neighbor st of
        Return r \<Rightarrow> Return r
      | Continue st' \<Rightarrow> flooding_for resource ttl depth pth rest st')"

text \<open>
  The body of \<open>while queue\<close> for the entry that was popped: \<open>continue\<close> at the depth
  limit, otherwise the \<open>for\<close> loop over the neighbours of \<open>current\<close>.
\<close>

definition flooding_expand ::
  "string \<Rightarrow> int \<Rightarrow> string \<times> int \<times> string list \<Rightarrow> fl_state
     \<Rightarrow> (result \<times> network, fl_state) outcome" where
  "flooding_expand resource ttl entry st =
     (case entry of (current, depth, pth) \<Rightarrow>
        if depth \<ge> ttl then Continue st
        else (case get_neighbors (fl_network st) current of (neighbors, net') \<Rightarrow>
          flooding_for resource ttl depth pth neighbors (st\<lparr>fl_network := net'\<rparr>)))"

text \<open>Every node that an adjacency table mentions.\<close>

definition graph_nodes :: "(string \<times> string list) list \<Rightarrow> string set" where
  "graph_nodes g = set (map fst g) \<union> \<Union> (set (map (set \<circ> snd) g))"

definition fl_measure :: "fl_state \<Rightarrow> nat" where
  "fl_measure st =
     card (graph_nodes (graph (fl_network st)) - set (fl_visited st)) + length (fl_queue st)"

lemma finite_graph_nodes [simp]: "finite (graph_nodes g)"
  by (auto simp: graph_nodes_def)

lemma dict_get_graph_nodes: "set (dict_get g v []) \<subseteq> graph_nodes g"
proof (cases "map_of g v")
  case None
  then show ?thesis by (simp add: dict_get_def)
next
  case (Some ns)
  then have "(v, ns) \<in> set g" by (rule map_of_SomeD)
  then have "set ns \<subseteq> graph_nodes g" by (force simp: graph_nodes_def)
  with Some show ?thesis by (simp add: dict_get_def)
qed

lemma card_diff_insert_less:
  assumes "finite U" and "n \<in> U" and "n \<notin> V"
  shows "card (U - insert n V) < card (U - V)"
  using assms by (intro psubset_card_mono) auto

lemma flooding_visit_Continue:
  assumes "flooding_visit resource ttl depth pth n st = Continue st'"
    and "n \<in> graph_nodes (graph (fl_network st))"
  shows "fl_network st' = fl_network st \<and> fl_measure st' \<le> fl_measure st"
proof -
  have "n \<notin> set (fl_visited st) \<Longrightarrow>
      card (graph_nodes (graph (fl_network st)) - insert n (set (fl_visited st)))
        < card (graph_nodes (graph (fl_network st)) - set (fl_visited st))"
    using assms(2) by (intro card_diff_insert_less) auto
  with assms(1) show ?thesis
    by (auto simp: flooding_visit_def Let_def has_resource_def fl_measure_def set_add_def
        split: if_splits)
qed

lemma flooding_for_Continue:
  "flooding_for resource ttl depth pth ns st = Continue st' \<Longrightarrow>
   set ns \<subseteq> graph_nodes (graph (fl_network st)) \<Longrightarrow>
   fl_network st' = fl_network st \<and> fl_measure st' \<le> fl_measure st"
proof (induction ns arbitrary: st)
  case Nil
  then show ?case by simp
next
  case (Cons n ns)
  from Cons.prems(1) obtain st1
    where v: "flooding_visit resource ttl depth pth n st = Continue st1"
      and f: "flooding_for resource ttl depth pth ns st1 = Continue st'"
    by (auto split: outcome.splits)
  from flooding_visit_Continue[OF v] Cons.prems(2)
  have 1: "fl_network st1 = fl_network st" "fl_measure st1 \<le> fl_measure st" by auto
  from Cons.IH[OF f] Cons.prems(2) 1 show ?case by auto
qed

lemma flooding_expand_Continue:
  assumes "flooding_expand resource ttl entry st = Continue st'"
  shows "fl_network st' = fl_network st \<and> fl_measure st' \<le> fl_measure st"
proof -
  obtain c d p where e: "entry = (c, d, p)" by (cases entry) auto
  show ?thesis
  proof (cases "d \<ge> ttl")
    case True
    then show ?thesis using assms e by (simp add: flooding_expand_def)
  next
    case False
    with assms e
    have "flooding_for resource ttl d p (dict_get (graph (fl_network st)) c []) st = Continue st'"
      by (simp add: flooding_expand_def get_neighbors_def)
    from flooding_for_Continue[OF this] dict_get_graph_nodes show ?thesis by simp
  qed
qed

text \<open>
  \<open>while queue\<close>: pop the first entry and expand it; when the queue is empty, the
  \<open>return\<close> after the loop.
\<close>

function flooding_while :: "string \<Rightarrow> int \<Rightarrow> fl_state \<Rightarrow> result \<times> network" where
  "flooding_while resource ttl st =
     (case fl_queue st of
        [] \<Rightarrow> (\<lparr>found = False, messages = fl_messages st,
                 nodes_visited = fl_nodes_visited st, path = fl_visited st,
                 all_visited = Some (fl_visited st)\<rparr>, fl_network st)
      | entry # q \<Rightarrow>
          (case flooding_expand resource ttl entry (st\<lparr>fl_queue := q\<rparr>) of
             Return r \<Rightarrow> r
           | Continue st' \<Rightarrow> flooding_while resource ttl st'))"
  by pat_completeness auto
termination
proof (relation "measure (\<lambda>(resource, ttl, st). fl_measure st)")
  show "wf (measure (\<lambda>(resource, ttl, st). fl_measure st))" by simp
next
  fix resource ttl st entry q st'
  assume q: "fl_queue st = entry # q"
    and e: "flooding_expand resource ttl entry (st\<lparr>fl_queue := q\<rparr>) = Continue st'"
  from flooding_expand_Continue[OF e]
  have "fl_measure st' \<le> fl_measure (st\<lparr>fl_queue := q\<rparr>)" by simp
  moreover have "fl_measure (st\<lparr>fl_queue := q\<rparr>) < fl_measure st"
    using q by (simp add: fl_measure_def)
  ultimately
  show "((resource, ttl, st'), (resource, ttl, st)) \<in> measure (\<lambda>(resource, ttl, st). fl_measure st)"
    by simp
qed

definition flooding_init :: "network \<Rightarrow> string \<Rightarrow> fl_state" where
  "flooding_init net start_node =
     \<lparr>fl_network = net, fl_queue = [(start_node, 0, [start_node])],
      fl_visited = set_add start_node [], fl_messages = 0, fl_nodes_visited = 1\<rparr>"

definition flooding :: "network \<Rightarrow> string \<Rightarrow> string \<Rightarrow> int \<Rightarrow> result \<times> network" where
  "flooding net start_node resource ttl =
     (case get_all_nodes net of (nodes, net1) \<Rightarrow>
        if start_node \<notin> nodes then
          (\<lparr>found = False, messages = 0, nodes_visited = 0, path = [], all_visited = None\<rparr>, net1)
        else (case has_resource net1 start_node resource of (hr, net2) \<Rightarrow>
          if hr then
            (\<lparr>found = True, messages = 0, nodes_visited = 1, path = [start_node],
              all_visited = None\<rparr>, net2)
          else flooding_while resource ttl (flooding_init net2 start_node)))"

section \<open>algorithms/informed_flooding.py\<close>

record ifl_state =
  ifl_network :: network
  ifl_cache :: Cache
  ifl_queue :: "(string \<times> int \<times> string list) list"
  ifl_visited :: "string list"
  ifl_messages :: int
  ifl_nodes_visited :: int

definition informed_flooding_visit ::
  "string \<Rightarrow> int \<Rightarrow> int \<Rightarrow> string list \<Rightarrow> string \<Rightarrow> ifl_state
     \<Rightarrow> (result \<times> network \<times> Cache, ifl_state) outcome" where
  "informed_flooding_visit resource ttl depth pth neighbor st =
     (let st1 = st\<lparr>ifl_messages := ifl_messages st + 1\<rparr> in
      if neighbor \<notin> set (ifl_visited st1) then
        (let st2 = st1\<lparr>ifl_visited := set_add neighbor (ifl_visited st1),
                        ifl_nodes_visited := ifl_nodes_visited st1 + 1\<rparr>;
             new_path = pth @ [neighbor]
         in case has_resource (ifl_network st2) neighbor resource of (hr, net') \<Rightarrow>
           (let st3 = st2\<lparr>ifl_network := net'\<rparr> in
            if hr then
              (let st4 = st3\<lparr>ifl_cache := add (ifl_cache st3) neighbor resource\<rparr> in
               Return (\<lparr>found = True, messages = ifl_messages st4,
                        nodes_visited = ifl_nodes_visited st4, path = new_path,
                        all_visited = None\<rparr>, ifl_network st4, ifl_cache st4))
            else
              (let st4 = st3\<lparr>ifl_cache := add_negative (ifl_cache st3) neighbor resource\<rparr> in
               if depth + 1 < ttl then
                 Continue (st4\<lparr>ifl_queue := ifl_queue st4 @ [(neighbor, depth + 1, new_path)]\<rparr>)
               else Continue st4)))
      else Continue st1)"

fun informed_flooding_for ::
  "string \<Rightarrow> int \<Rightarrow> int \<Rightarrow> string list \<Rightarrow> string list \<Rightarrow> ifl_state
     \<Rightarrow> (result \<times> network \<times> Cache, ifl_state) outcome" where
  "informed_flooding_for resource ttl depth pth [] st = Continue st"
| "informed_flooding_for resource ttl depth pth (neighbor # rest) st =
     (case informed_flooding_visit resource ttl depth pth neighbor st of
        Return r \<Rightarrow> Return r
      | Continue st' \<Rightarrow> informed_flooding_for resource ttl depth pth rest st')"

text \<open>
  The list comprehension \<open>filtered_neighbors\<close>, evaluated against the cache as it is
  when the node is expanded.
\<close>

definition filtered_neighbors :: "Cache \<Rightarrow> string \<Rightarrow> string list \<Rightarrow> string list" where
  "filtered_neighbors c resource neighbors =
     filter (\<lambda>n. has c n resource \<or> \<not> has_negative c n resource) neighbors"

definition informed_flooding_expand ::
  "string \<Rightarrow> int \<Rightarrow> string \<times> int \<times> string list \<Rightarrow> ifl_state
     \<Rightarrow> (result \<times> network \<times> Cache, ifl_state) outcome" where
  "informed_flooding_expand resource ttl entry st =
     (case entry of (current, depth, pth) \<Rightarrow>
        if depth \<ge> ttl then Continue st
        else (case get_neighbors (ifl_network st) current of (neighbors, net') \<Rightarrow>
          (let st1 = st\<lparr>ifl_network := net'\<rparr>
           in informed_flooding_for resource ttl depth pth
                (filtered_neighbors (ifl_cache st1) resource neighbors) st1)))"

definition ifl_measure :: "ifl_state \<Rightarrow> nat" where
  "ifl_measure st =
     card (graph_nodes (graph (ifl_network st)) - set (ifl_visited st)) + length (ifl_queue st)"

lemma informed_flooding_visit_Continue:
  assumes "informed_flooding_visit resource ttl depth pth n st = Continue st'"
    and "n \<in> graph_nodes (graph (ifl_network st))"
  shows "ifl_network st' = ifl_network st \<and> ifl_measure st' \<le> ifl_measure st"
proof -
  have "n \<notin> set (ifl_visited st) \<Longrightarrow>
      card (graph_nodes (graph (ifl_network st)) - insert n (set (ifl_visited st)))
        < card (graph_nodes (graph (ifl_network st)) - set (ifl_visited st))"
    using assms(2) by (intro card_diff_insert_less) auto
  with assms(1) show ?thesis
    by (auto simp: informed_flooding_visit_def Let_def has_resource_def ifl_measure_def
        set_add_def split: if_splits)
qed

lemma informed_flooding_for_Continue:
  "informed_flooding_for resource ttl depth pth ns st = Continue st' \<Longrightarrow>
   set ns \<subseteq> graph_nodes (graph (ifl_network st)) \<Longrightarrow>
   ifl_network st' = ifl_network st \<and> ifl_measure st' \<le> ifl_measure st"
proof (induction ns arbitrary: st)
  case Nil
  then show ?case by simp
next
  case (Cons n ns)
  from Cons.prems(1) obtain st1
    where v: "informed_flooding_visit resource ttl depth pth n st = Continue st1"
      and f: "informed_flooding_for resource ttl depth pth ns st1 = Continue st'"
    by (auto split: outcome.splits)
  from informed_flooding_visit_Continue[OF v] Cons.prems(2)
  have 1: "ifl_network st1 = ifl_network st" "ifl_measure st1 \<le> ifl_measure st" by auto
  from Cons.IH[OF f] Cons.prems(2) 1 show ?case by auto
qed

lemma informed_flooding_expand_Continue:
  assumes "informed_flooding_expand resource ttl entry st = Continue st'"
  shows "ifl_network st' = ifl_network st \<and> ifl_measure st' \<le> ifl_measure st"
proof -
  obtain c d p where e: "entry = (c, d, p)" by (cases entry) auto
  show ?thesis
  proof (cases "d \<ge> ttl")
    case True
    then show ?thesis using assms e by (simp add: informed_flooding_expand_def)
  next
    case False
    let ?ns = "filtered_neighbors (ifl_cache st) resource (dict_get (graph (ifl_network st)) c [])"
    from False assms e
    have "informed_flooding_for resource ttl d p ?ns st = Continue st'"
      by (simp add: informed_flooding_expand_def get_neighbors_def)
    moreover have "set ?ns \<subseteq> graph_nodes (graph (ifl_network st))"
      using dict_get_graph_nodes by (auto simp: filtered_neighbors_def)
    ultimately show ?thesis by (rule informed_flooding_for_Continue)
  qed
qed

function informed_flooding_while ::
  "string \<Rightarrow> int \<Rightarrow> ifl_state \<Rightarrow> result \<times> network \<times> Cache" where
  "informed_flooding_while resource ttl st =
     (case ifl_queue st of
        [] \<Rightarrow> (\<lparr>found = False, messages = ifl_messages st,
                 nodes_visited = ifl_nodes_visited st, path = ifl_visited st,
                 all_visited = None\<rparr>, ifl_network st, ifl_cache st)
      | entry # q \<Rightarrow>
          (case informed_flooding_expand resource ttl entry (st\<lparr>ifl_queue := q\<rparr>) of
             Return r \<Rightarrow> r
           | Continue st' \<Rightarrow> informed_flooding_while resource ttl st'))"
  by pat_completeness auto
termination
proof (relation "measure (\<lambda>(resource, ttl, st). ifl_measure st)")
  show "wf (measure (\<lambda>(resource, ttl, st). ifl_measure st))" by simp
next
  fix resource ttl st entry q st'
  assume q: "ifl_queue st = entry # q"
    and e: "informed_flooding_expand resource ttl entry (st\<lparr>ifl_queue := q\<rparr>) = Continue st'"
  from informed_flooding_expand_Continue[OF e]
  have "ifl_measure st' \<le> ifl_measure (st\<lparr>ifl_queue := q\<rparr>)" by simp
  moreover have "ifl_measure (st\<lparr>ifl_queue := q\<rparr>) < ifl_measure st"
    using q by (simp add: ifl_measure_def)
  ultimately
  show "((resource, ttl, st'), (resource, ttl, st)) \<in> measure (\<lambda>(resource, ttl, st). ifl_measure st)"
    by simp
qed

definition informed_flooding_init :: "network \<Rightarrow> Cache \<Rightarrow> string \<Rightarrow> ifl_state" where
  "informed_flooding_init net c start_node =
     \<lparr>ifl_network = net, ifl_cache = c, ifl_queue = [(start_node, 0, [start_node])],
      ifl_visited = set_add start_node [], ifl_messages = 0, ifl_nodes_visited = 1\<rparr>"

text \<open>
  The argument \<open>cache\<close> is \<open>None\<close> by default; the function then builds its own cache
  from the network. The cache object the search used is returned with the result.
\<close>

definition informed_flooding ::
  "network \<Rightarrow> string \<Rightarrow> string \<Rightarrow> int \<Rightarrow> Cache option \<Rightarrow> result \<times> network \<times> Cache" where
  "informed_flooding net start_node resource ttl cache_arg =
     (let c = (case cache_arg of None \<Rightarrow> update_from_network Cache_init net | Some c' \<Rightarrow> c')
      in case get_all_nodes net of (nodes, net1) \<Rightarrow>
        if start_node \<notin> nodes then
          (\<lparr>found = False, messages = 0, nodes_visited = 0, path = [], all_visited = None\<rparr>,
           net1, c)
        else if has c start_node resource then
          (\<lparr>found = True, messages = 0, nodes_visited = 1, path = [start_node],
            all_visited = None\<rparr>, net1, c)
        else (case has_resource net1 start_node resource of (hr, net2) \<Rightarrow>
          if hr then
            (\<lparr>found = True, messages = 0, nodes_visited = 1, path = [start_node],
              all_visited = None\<rparr>, net2, add c start_node resource)
          else informed_flooding_while resource ttl (informed_flooding_init net2 c start_node)))"

section \<open>algorithms/random_walk.py\<close>

record rw_state =
  rw_network :: network
  rw_current :: string
  rw_path :: "string list"
  rw_visited :: "string list"
  rw_messages :: int
  rw_steps :: int

text \<open>The \<open>return\<close> after the loop, reached by \<open>break\<close> or when the steps run out.\<close>

definition random_walk_end :: "rw_state \<Rightarrow> result \<times> network" where
  "random_walk_end st =
     (\<lparr>found = False, messages = rw_messages st, nodes_visited = int (length (rw_visited st)),
       path = rw_path st, all_visited = None\<rparr>, rw_network st)"

text \<open>The loop body once \<open>next_node\<close> has been chosen.\<close>

definition random_walk_step ::
  "string \<Rightarrow> string \<Rightarrow> rw_state \<Rightarrow> (result \<times> network, rw_state) outcome" where
  "random_walk_step resource next_node st =
     (let st1 = st\<lparr>rw_messages := rw_messages st + 1, rw_steps := rw_steps st + 1\<rparr>;
          st2 = (if next_node \<notin> set (rw_visited st1)
                 then st1\<lparr>rw_visited := set_add next_node (rw_visited st1)\<rparr> else st1);
          st3 = st2\<lparr>rw_path := rw_path st2 @ [next_node], rw_current := next_node\<rparr>
      in case has_resource (rw_network st3) (rw_current st3) resource of (hr, net') \<Rightarrow>
        (let st4 = st3\<lparr>rw_network := net'\<rparr> in
         if hr then
           Return (\<lparr>found = True, messages = rw_messages st4,
                    nodes_visited = int (length (rw_visited st4)), path = rw_path st4,
                    all_visited = None\<rparr>, rw_network st4)
         else Continue st4))"

lemma random_walk_step_steps:
  "random_walk_step resource next_node st = Continue st' \<Longrightarrow> rw_steps st' = rw_steps st + 1"
  by (auto simp: random_walk_step_def Let_def has_resource_def split: if_splits)

text \<open>
  \<open>while steps < ttl\<close>. The generator is the sequence \<open>rnd\<close> of raw draws; the loop
  draws once per iteration, so the draw of the iteration with \<open>steps = k\<close> is \<open>rnd k\<close>.
\<close>

function random_walk_while ::
  "(nat \<Rightarrow> nat) \<Rightarrow> string \<Rightarrow> int \<Rightarrow> rw_state \<Rightarrow> py_error + result \<times> network" where
  "random_walk_while rnd resource ttl st =
     (if rw_steps st < ttl then
        (case get_neighbors (rw_network st) (rw_current st) of (neighbors, net') \<Rightarrow>
          (let st1 = st\<lparr>rw_network := net'\<rparr> in
           if neighbors = [] then Inr (random_walk_end st1)
           else (case random_choice (rnd (nat (rw_steps st1))) neighbors of
              Inl e \<Rightarrow> Inl e
            | Inr next_node \<Rightarrow>
                (case random_walk_step resource next_node st1 of
                   Return r \<Rightarrow> Inr r
                 | Continue st' \<Rightarrow> random_walk_while rnd resource ttl st'))))
      else Inr (random_walk_end st))"
  by pat_completeness auto
termination
proof (relation "measure (\<lambda>(rnd, resource, ttl, st). nat (ttl - rw_steps st))")
  show "wf (measure (\<lambda>(rnd, resource, ttl, st). nat (ttl - rw_steps st)))" by simp
next
  fix rnd :: "nat \<Rightarrow> nat" and resource ttl st x neighbors net' st1 next_node st'
  assume lt: "rw_steps st < ttl"
    and st1: "st1 = st\<lparr>rw_network := net'\<rparr>"
    and step: "random_walk_step resource next_node st1 = Continue st'"
  from random_walk_step_steps[OF step] st1 have "rw_steps st' = rw_steps st + 1" by simp
  with lt
  show "((rnd, resource, ttl, st'), (rnd, resource, ttl, st))
          \<in> measure (\<lambda>(rnd, resource, ttl, st). nat (ttl - rw_steps st))"
    by simp
qed

definition random_walk_init :: "network \<Rightarrow> string \<Rightarrow> rw_state" where
  "random_walk_init net start_node =
     \<lparr>rw_network = net, rw_current = start_node, rw_path = [start_node],
      rw_visited = [start_node], rw_messages = 0, rw_steps = 0\<rparr>"

definition random_walk ::
  "(nat \<Rightarrow> nat) \<Rightarrow> network \<Rightarrow> string \<Rightarrow> string \<Rightarrow> int \<Rightarrow> py_error + result \<times> network" where
  "random_walk rnd net start_node resource ttl =
     (case get_all_nodes net of (nodes, net1) \<Rightarrow>
        if start_node \<notin> nodes then
          Inr (\<lparr>found = False, messages = 0, nodes_visited = 0, path = [], all_visited = None\<rparr>,
               net1)
        else (case has_resource net1 start_node resource of (hr, net2) \<Rightarrow>
          if hr then
            Inr (\<lparr>found = True, messages = 0, nodes_visited = 1, path = [start_node],
                  all_visited = None\<rparr>, net2)
          else random_walk_while rnd resource ttl (random_walk_init net2 start_node)))"

section \<open>algorithms/informed_random_walk.py\<close>

record irw_state =
  irw_network :: network
  irw_cache :: Cache
  irw_current :: string
  irw_path :: "string list"
  irw_visited :: "string list"
  irw_messages :: int
  irw_steps :: int

definition informed_random_walk_end :: "irw_state \<Rightarrow> result \<times> network \<times> Cache" where
  "informed_random_walk_end st =
     (\<lparr>found = False, messages = irw_messages st,
       nodes_visited = int (length (irw_visited st)), path = irw_path st, all_visited = None\<rparr>,
      irw_network st, irw_cache st)"

definition informed_random_walk_step ::
  "string \<Rightarrow> string \<Rightarrow> irw_state \<Rightarrow> (result \<times> network \<times> Cache, irw_state) outcome" where
  "informed_random_walk_step resource next_node st =
     (let st1 = st\<lparr>irw_messages := irw_messages st + 1, irw_steps := irw_steps st + 1\<rparr>;
          st2 = (if next_node \<notin> set (irw_visited st1)
                 then st1\<lparr>irw_visited := set_add next_node (irw_visited st1)\<rparr> else st1);
          st3 = st2\<lparr>irw_path := irw_path st2 @ [next_node], irw_current := next_node\<rparr>
      in case has_resource (irw_network st3) (irw_current st3) resource of (hr, net') \<Rightarrow>
        (let st4 = st3\<lparr>irw_network := net'\<rparr> in
         if hr then
           (let st5 = st4\<lparr>irw_cache := add (irw_cache st4) (irw_current st4) resource\<rparr> in
            Return (\<lparr>found = True, messages = irw_messages st5,
                     nodes_visited = int (length (irw_visited st5)), path = irw_path st5,
                     all_visited = None\<rparr>, irw_network st5, irw_cache st5))
         else
           Continue (st4\<lparr>irw_cache := add_negative (irw_cache st4) (irw_current st4) resource\<rparr>)))"

lemma informed_random_walk_step_steps:
  "informed_random_walk_step resource next_node st = Continue st' \<Longrightarrow>
   irw_steps st' = irw_steps st + 1"
  by (auto simp: informed_random_walk_step_def Let_def has_resource_def split: if_splits)

text \<open>
  The candidates of one step: the neighbours that pass the cache filter, or all the
  neighbours when none passes.
\<close>

definition candidate_neighbors :: "Cache \<Rightarrow> string \<Rightarrow> string list \<Rightarrow> string list" where
  "candidate_neighbors c resource neighbors =
     (let candidates = filter (\<lambda>n. has c n resource \<or> \<not> has_negative c n resource) neighbors
      in if candidates = [] then neighbors else candidates)"

function informed_random_walk_while ::
  "(nat \<Rightarrow> nat) \<Rightarrow> string \<Rightarrow> int \<Rightarrow> irw_state \<Rightarrow> py_error + result \<times> network \<times> Cache" where
  "informed_random_walk_while rnd resource ttl st =
     (if irw_steps st < ttl then
        (case get_neighbors (irw_network st) (irw_current st) of (neighbors, net') \<Rightarrow>
          (let st1 = st\<lparr>irw_network := net'\<rparr> in
           if neighbors = [] then Inr (informed_random_walk_end st1)
           else (case random_choice (rnd (nat (irw_steps st1)))
                        (candidate_neighbors (irw_cache st1) resource neighbors) of
              Inl e \<Rightarrow> Inl e
            | Inr next_node \<Rightarrow>
                (case informed_random_walk_step resource next_node st1 of
                   Return r \<Rightarrow> Inr r
                 | Continue st' \<Rightarrow> informed_random_walk_while rnd resource ttl st'))))
      else Inr (informed_random_walk_end st))"
  by pat_completeness auto
termination
proof (relation "measure (\<lambda>(rnd, resource, ttl, st). nat (ttl - irw_steps st))")
  show "wf (measure (\<lambda>(rnd, resource, ttl, st). nat (ttl - irw_steps st)))" by simp
next
  fix rnd :: "nat \<Rightarrow> nat" and resource ttl st x neighbors net' st1 next_node st'
  assume lt: "irw_steps st < ttl"
    and st1: "st1 = st\<lparr>irw_network := net'\<rparr>"
    and step: "informed_random_walk_step resource next_node st1 = Continue st'"
  from informed_random_walk_step_steps[OF step] st1 have "irw_steps st' = irw_steps st + 1"
    by simp
  with lt
  show "((rnd, resource, ttl, st'), (rnd, resource, ttl, st))
          \<in> measure (\<lambda>(rnd, resource, ttl, st). nat (ttl - irw_steps st))"
    by simp
qed

definition informed_random_walk_init :: "network \<Rightarrow> Cache \<Rightarrow> string \<Rightarrow> irw_state" where
  "informed_random_walk_init net c start_node =
     \<lparr>irw_network = net, irw_cache = c, irw_current = start_node, irw_path = [start_node],
      irw_visited = [start_node], irw_messages = 0, irw_steps = 0\<rparr>"

definition informed_random_walk ::
  "(nat \<Rightarrow> nat) \<Rightarrow> network \<Rightarrow> string \<Rightarrow> string \<Rightarrow> int \<Rightarrow> Cache option
     \<Rightarrow> py_error + result \<times> network \<times> Cache" where
  "informed_random_walk rnd net start_node resource ttl cache_arg =
     (let c = (case cache_arg of None \<Rightarrow> update_from_network Cache_init net | Some c' \<Rightarrow> c')
      in case get_all_nodes net of (nodes, net1) \<Rightarrow>
        if start_node \<notin> nodes then
          Inr (\<lparr>found = False, messages = 0, nodes_visited = 0, path = [], all_visited = None\<rparr>,
               net1, c)
        else if has c start_node resource then
          Inr (\<lparr>found = True, messages = 0, nodes_visited = 1, path = [start_node],
                all_visited = None\<rparr>, net1, c)
        else (case has_resource net1 start_node resource of (hr, net2) \<Rightarrow>
          if hr then
            Inr (\<lparr>found = True, messages = 0, nodes_visited = 1, path = [start_node],
                  all_visited = None\<rparr>, net2, add c start_node resource)
          else informed_random_walk_while rnd resource ttl
                 (informed_random_walk_init net2 c start_node)))"

section \<open>main.py: the dispatcher\<close>

text \<open>
  \<open>run_search\<close> builds a fresh cache from the network for the informed strategies and
  raises \<open>ValueError\<close> for any other name. The cache is local to the call.
\<close>

definition run_search ::
  "(nat \<Rightarrow> nat) \<Rightarrow> network \<Rightarrow> string \<Rightarrow> string \<Rightarrow> string \<Rightarrow> int
     \<Rightarrow> py_error + result \<times> network" where
  "run_search rnd net algorithm start_node resource ttl =
     (if algorithm = ''flooding'' then Inr (flooding net start_node resource ttl)
      else if algorithm = ''informed_flooding'' then
        (let c = update_from_network Cache_init net
         in case informed_flooding net start_node resource ttl (Some c) of
              (r, net', c') \<Rightarrow> Inr (r, net'))
      else if algorithm = ''random_walk'' then random_walk rnd net start_node resource ttl
      else if algorithm = ''informed_random_walk'' then
        (let c = update_from_network Cache_init net
         in case informed_random_walk rnd net start_node resource ttl (Some c) of
              Inl e \<Rightarrow> Inl e
            | Inr (r, net', c') \<Rightarrow> Inr (r, net'))
      else Inl (ValueError (''Algoritmo desconhecido: '' @ algorithm)))"

section \<open>An example network\<close>

text \<open>
  The ring A - B - C - D - A, where A holds \<open>x\<close>, C holds \<open>y\<close> and B and D hold nothing.
\<close>

definition ring_network :: network where
  "ring_network =
     Network_init 4 [(''A'', [''x'']), (''B'', []), (''C'', [''y'']), (''D'', [])]
       [(''A'', ''B''), (''B'', ''C''), (''C'', ''D''), (''D'', ''A'')]"

lemmas network_defs =
  Network_init_def add_edge_def ensure_node_def dict_get_def set_add_def
  get_all_nodes_def has_resource_def get_neighbors_def

lemmas cache_defs =
  Cache_init_def add_def add_negative_def has_def has_negative_def update_from_network_def

declare flooding_while.simps [simp del]
declare informed_flooding_while.simps [simp del]
declare random_walk_while.simps [simp del]
declare informed_random_walk_while.simps [simp del]

section \<open>The start node short-circuits\<close>

text \<open>
  C5. When the start node is a node of the network and holds the resource, each of
  the four strategies returns found = True, messages = 0, nodes_visited = 1 and
  path = [start], whatever the TTL, the cache argument and the random draws are.
\<close>

theorem start_node_holds_resource:
  assumes "start_node \<in> fst (get_all_nodes net)"
    and "fst (has_resource net start_node resource)"
  shows "fst (flooding net start_node resource ttl)
           = \<lparr>found = True, messages = 0, nodes_visited = 1, path = [start_node],
               all_visited = None\<rparr>
       \<and> fst (informed_flooding net start_node resource ttl cache_arg)
           = \<lparr>found = True, messages = 0, nodes_visited = 1, path = [start_node],
               all_visited = None\<rparr>
       \<and> random_walk rnd net start_node resource ttl
           = Inr (\<lparr>found = True, messages = 0, nodes_visited = 1, path = [start_node],
                    all_visited = None\<rparr>, net)
       \<and> (\<exists>c. informed_random_walk rnd net start_node resource ttl cache_arg
           = Inr (\<lparr>found = True, messages = 0, nodes_visited = 1, path = [start_node],
                    all_visited = None\<rparr>, net, c))"
  using assms
  by (simp add: flooding_def informed_flooding_def random_walk_def informed_random_walk_def
      get_all_nodes_def has_resource_def Let_def)

theorem start_node_holds_resource_witness:
  "''A'' \<in> fst (get_all_nodes ring_network)
   \<and> fst (has_resource ring_network ''A'' ''x'')
   \<and> fst (flooding ring_network ''A'' ''x'' 3)
        = \<lparr>found = True, messages = 0, nodes_visited = 1, path = [''A''], all_visited = None\<rparr>
   \<and> fst (informed_flooding ring_network ''A'' ''x'' 3 None)
        = \<lparr>found = True, messages = 0, nodes_visited = 1, path = [''A''], all_visited = None\<rparr>
   \<and> random_walk (\<lambda>k. k) ring_network ''A'' ''x'' 3
        = Inr (\<lparr>found = True, messages = 0, nodes_visited = 1, path = [''A''],
                 all_visited = None\<rparr>, ring_network)
   \<and> (\<exists>c. informed_random_walk (\<lambda>k. k) ring_network ''A'' ''x'' 3 None
        = Inr (\<lparr>found = True, messages = 0, nodes_visited = 1, path = [''A''],
                 all_visited = None\<rparr>, ring_network, c))"
proof -
  have 1: "''A'' \<in> fst (get_all_nodes ring_network)"
    by (simp add: ring_network_def network_defs)
  have 2: "fst (has_resource ring_network ''A'' ''x'')"
    by (simp add: ring_network_def network_defs)
  from start_node_holds_resource[OF 1 2, of 3 None "\<lambda>k. k"] 1 2 show ?thesis by simp
qed

text \<open>
  C10. The informed strategies consult the cache before the network: when the start
  node is a node of the network and the supplied cache records the resource for it, the
  search returns found = True, messages = 0, nodes_visited = 1 and path = [start] at once
  and leaves the cache as it was, whether or not the node holds the resource.
\<close>

theorem cached_start_node_trusted:
  assumes "start_node \<in> fst (get_all_nodes net)"
    and "has c start_node resource"
  shows "informed_flooding net start_node resource ttl (Some c)
           = (\<lparr>found = True, messages = 0, nodes_visited = 1, path = [start_node],
                all_visited = None\<rparr>, net, c)
       \<and> informed_random_walk rnd net start_node resource ttl (Some c)
           = Inr (\<lparr>found = True, messages = 0, nodes_visited = 1, path = [start_node],
                    all_visited = None\<rparr>, net, c)"
  using assms
  by (simp add: informed_flooding_def informed_random_walk_def get_all_nodes_def)

theorem cached_start_node_trusted_witness:
  "''B'' \<in> fst (get_all_nodes ring_network)
   \<and> has (add Cache_init ''B'' ''y'') ''B'' ''y''
   \<and> \<not> fst (has_resource ring_network ''B'' ''y'')
   \<and> informed_flooding ring_network ''B'' ''y'' 3 (Some (add Cache_init ''B'' ''y''))
        = (\<lparr>found = True, messages = 0, nodes_visited = 1, path = [''B''], all_visited = None\<rparr>,
           ring_network, add Cache_init ''B'' ''y'')
   \<and> informed_random_walk (\<lambda>k. k) ring_network ''B'' ''y'' 3 (Some (add Cache_init ''B'' ''y''))
        = Inr (\<lparr>found = True, messages = 0, nodes_visited = 1, path = [''B''],
                 all_visited = None\<rparr>, ring_network, add Cache_init ''B'' ''y'')"
proof -
  have 1: "''B'' \<in> fst (get_all_nodes ring_network)"
    by (simp add: ring_network_def network_defs)
  have 2: "has (add Cache_init ''B'' ''y'') ''B'' ''y''"
    by (simp add: cache_defs)
  have 3: "\<not> fst (has_resource ring_network ''B'' ''y'')"
    by (simp add: ring_network_def network_defs)
  from cached_start_node_trusted[OF 1 2, of 3 "\<lambda>k. k"] 1 2 3 show ?thesis by simp
qed

section \<open>The cache operations\<close>

text \<open>
  A sequence of calls on a cache object, and the condition that \<open>add_negative\<close> is
  never called for a pair that the cache records as present at that moment.
\<close>

datatype cache_op = Add string string | AddNegative string string | Clear | UpdateFromNetwork network

fun apply_cache_op :: "cache_op \<Rightarrow> Cache \<Rightarrow> Cache" where
  "apply_cache_op (Add node resource) c = add c node resource"
| "apply_cache_op (AddNegative node resource) c = add_negative c node resource"
| "apply_cache_op Clear c = clear c"
| "apply_cache_op (UpdateFromNetwork net) c = update_from_network c net"

fun run_cache_ops :: "cache_op list \<Rightarrow> Cache \<Rightarrow> Cache" where
  "run_cache_ops [] c = c"
| "run_cache_ops (op # ops) c = run_cache_ops ops (apply_cache_op op c)"

fun negatives_guarded :: "cache_op list \<Rightarrow> Cache \<Rightarrow> bool" where
  "negatives_guarded [] c = True"
| "negatives_guarded (op # ops) c =
     ((case op of AddNegative node resource \<Rightarrow> \<not> has c node resource | _ \<Rightarrow> True)
      \<and> negatives_guarded ops (apply_cache_op op c))"

lemma has_add [simp]:
  "has (add c n r) n' r' \<longleftrightarrow> has c n' r' \<or> (n' = n \<and> r' = r)"
  by (auto simp: has_def add_def Let_def split: option.splits if_splits)

lemma has_negative_add [simp]:
  "has_negative (add c n r) n' r' \<longleftrightarrow> has_negative c n' r' \<and> \<not> (n' = n \<and> r' = r)"
  by (auto simp: has_negative_def add_def Let_def split: option.splits if_splits)

lemma has_add_negative [simp]:
  "has (add_negative c n r) n' r' \<longleftrightarrow> has c n' r'"
  by (auto simp: has_def add_negative_def Let_def split: option.splits if_splits)

lemma has_negative_add_negative [simp]:
  "has_negative (add_negative c n r) n' r' \<longleftrightarrow> has_negative c n' r' \<or> (n' = n \<and> r' = r)"
  by (auto simp: has_negative_def add_negative_def Let_def split: option.splits if_splits)

lemma has_Cache_init [simp]: "\<not> has Cache_init n r" "\<not> has_negative Cache_init n r"
  by (simp_all add: has_def has_negative_def Cache_init_def)

lemma has_clear [simp]: "\<not> has (clear c) n r" "\<not> has_negative (clear c) n r"
  by (simp_all add: has_def has_negative_def clear_def)

lemma has_fold_add:
  "has (fold (\<lambda>resource c'. add c' node resource) rs c) n r
     \<longleftrightarrow> has c n r \<or> (n = node \<and> r \<in> set rs)"
  by (induction rs arbitrary: c) auto

lemma has_negative_fold_add:
  "has_negative (fold (\<lambda>resource c'. add c' node resource) rs c) n r
     \<longleftrightarrow> has_negative c n r \<and> \<not> (n = node \<and> r \<in> set rs)"
  by (induction rs arbitrary: c) auto

lemma has_fold_items:
  "has (fold (\<lambda>(node, rs) c. fold (\<lambda>resource c'. add c' node resource) rs c) items c) n r
     \<longleftrightarrow> has c n r \<or> (\<exists>rs. (n, rs) \<in> set items \<and> r \<in> set rs)"
  by (induction items arbitrary: c) (auto simp: has_fold_add)

lemma has_negative_fold_items:
  "has_negative (fold (\<lambda>(node, rs) c. fold (\<lambda>resource c'. add c' node resource) rs c) items c) n r
     \<longleftrightarrow> has_negative c n r \<and> \<not> (\<exists>rs. (n, rs) \<in> set items \<and> r \<in> set rs)"
  by (induction items arbitrary: c) (auto simp: has_negative_fold_add)

lemma has_update_from_network:
  "has (update_from_network c net) n r
     \<longleftrightarrow> has c n r \<or> (\<exists>rs. (n, rs) \<in> set (resources net) \<and> r \<in> set rs)"
  by (simp add: update_from_network_def has_fold_items)

lemma has_negative_update_from_network:
  "has_negative (update_from_network c net) n r
     \<longleftrightarrow> has_negative c n r \<and> \<not> (\<exists>rs. (n, rs) \<in> set (resources net) \<and> r \<in> set rs)"
  by (simp add: update_from_network_def has_negative_fold_items)

lemma apply_cache_op_disjoint:
  assumes "\<not> (has c n r \<and> has_negative c n r)"
    and "case op of AddNegative node resource \<Rightarrow> \<not> has c node resource | _ \<Rightarrow> True"
  shows "\<not> (has (apply_cache_op op c) n r \<and> has_negative (apply_cache_op op c) n r)"
  using assms
  by (cases op) (auto simp: has_update_from_network has_negative_update_from_network)

lemma run_cache_ops_disjoint:
  "\<not> (has c n r \<and> has_negative c n r) \<Longrightarrow> negatives_guarded ops c \<Longrightarrow>
   \<not> (has (run_cache_ops ops c) n r \<and> has_negative (run_cache_ops ops c) n r)"
proof (induction ops arbitrary: c)
  case Nil
  then show ?case by simp
next
  case (Cons op ops)
  from Cons.prems have g: "case op of AddNegative node resource \<Rightarrow> \<not> has c node resource | _ \<Rightarrow> True"
    and g': "negatives_guarded ops (apply_cache_op op c)" by simp_all
  from apply_cache_op_disjoint[OF Cons.prems(1) g] 
  have "\<not> (has (apply_cache_op op c) n r \<and> has_negative (apply_cache_op op c) n r)" .
  from Cons.IH[OF this g'] show ?case by simp
qed

lemma add_negative_noop_iff:
  "add_negative c node resource = c \<longleftrightarrow> has_negative c node resource"
proof
  assume "add_negative c node resource = c"
  then have "has_negative c node resource = has_negative (add_negative c node resource) node resource"
    by simp
  then show "has_negative c node resource" by simp
next
  assume "has_negative c node resource"
  then obtain s where s: "negative_cache c node = Some s" "resource \<in> s"
    by (auto simp: has_negative_def split: option.splits)
  then have "insert resource s = s" by auto
  with s have "(negative_cache c)(node \<mapsto> insert resource s) = negative_cache c"
    by (simp add: fun_upd_idem)
  with s show "add_negative c node resource = c"
    by (simp add: add_negative_def Let_def dom_def)
qed

text \<open>
  C2, as the code has it. \<open>add_negative\<close> never looks at the positive records: it
  leaves them as they are and records the pair as absent, whatever the cache says about
  it, so it changes nothing exactly when the pair is already recorded absent. \<open>add\<close>
  records its pair as present and removes the record that it is absent; neither
  operation changes what the cache says about any other pair. A pair that is not both
  present and absent stays so along every sequence of cache operations in which
  \<open>add_negative\<close> is never called for a pair recorded present at that moment.
\<close>

theorem add_negative_not_guarded:
  "cache (add_negative c node resource) = cache c
   \<and> has_negative (add_negative c node resource) node resource
   \<and> (has (add_negative c node resource) n r \<longleftrightarrow> has c n r)
   \<and> (has_negative (add_negative c node resource) n r
        \<longleftrightarrow> has_negative c n r \<or> (n = node \<and> r = resource))
   \<and> (add_negative c node resource = c \<longleftrightarrow> has_negative c node resource)
   \<and> has (add c node resource) node resource
   \<and> \<not> has_negative (add c node resource) node resource
   \<and> (has (add c node resource) n r \<longleftrightarrow> has c n r \<or> (n = node \<and> r = resource))
   \<and> (has_negative (add c node resource) n r
        \<longleftrightarrow> has_negative c n r \<and> \<not> (n = node \<and> r = resource))
   \<and> (\<not> (has c n r \<and> has_negative c n r) \<longrightarrow> negatives_guarded ops c \<longrightarrow>
        \<not> (has (run_cache_ops ops c) n r \<and> has_negative (run_cache_ops ops c) n r))"
proof -
  have 1: "cache (add_negative c node resource) = cache c"
    by (simp add: add_negative_def Let_def split: option.splits)
  have 2: "has_negative (add_negative c node resource) node resource" by simp
  have 3: "has (add_negative c node resource) n r \<longleftrightarrow> has c n r" by simp
  have 4: "has_negative (add_negative c node resource) n r
        \<longleftrightarrow> has_negative c n r \<or> (n = node \<and> r = resource)" by simp
  have 5: "has (add c node resource) node resource" by simp
  have 6: "\<not> has_negative (add c node resource) node resource" by simp
  have 7: "has (add c node resource) n r \<longleftrightarrow> has c n r \<or> (n = node \<and> r = resource)" by simp
  have 8: "has_negative (add c node resource) n r
        \<longleftrightarrow> has_negative c n r \<and> \<not> (n = node \<and> r = resource)" by simp
  have 9: "\<not> (has c n r \<and> has_negative c n r) \<longrightarrow> negatives_guarded ops c \<longrightarrow>
        \<not> (has (run_cache_ops ops c) n r \<and> has_negative (run_cache_ops ops c) n r)"
    using run_cache_ops_disjoint[of c n r ops] by blast
  show ?thesis
    by (intro conjI 1 2 3 4 5 6 7 8 9 add_negative_noop_iff)
qed

theorem add_negative_not_guarded_witness:
  "\<not> (has Cache_init ''A'' ''x'' \<and> has_negative Cache_init ''A'' ''x'')
   \<and> negatives_guarded
        [AddNegative ''A'' ''x'', Add ''A'' ''x'', AddNegative ''B'' ''x'',
         UpdateFromNetwork ring_network] Cache_init
   \<and> \<not> (has (run_cache_ops
              [AddNegative ''A'' ''x'', Add ''A'' ''x'', AddNegative ''B'' ''x'',
               UpdateFromNetwork ring_network] Cache_init) ''A'' ''x''
        \<and> has_negative (run_cache_ops
              [AddNegative ''A'' ''x'', Add ''A'' ''x'', AddNegative ''B'' ''x'',
               UpdateFromNetwork ring_network] Cache_init) ''A'' ''x'')
   \<and> has_negative (add_negative Cache_init ''A'' ''x'') ''A'' ''x''
   \<and> has (add (add_negative Cache_init ''A'' ''x'') ''A'' ''x'') ''A'' ''x''
   \<and> \<not> has_negative (add (add_negative Cache_init ''A'' ''x'') ''A'' ''x'') ''A'' ''x''"
proof -
  have 1: "\<not> (has Cache_init ''A'' ''x'' \<and> has_negative Cache_init ''A'' ''x'')"
    by (simp add: cache_defs)
  have 2: "negatives_guarded
        [AddNegative ''A'' ''x'', Add ''A'' ''x'', AddNegative ''B'' ''x'',
         UpdateFromNetwork ring_network] Cache_init"
    by (simp add: cache_defs)
  note seq = add_negative_not_guarded[of Cache_init "''A''" "''x''" "''A''" "''x''"
         "[AddNegative ''A'' ''x'', Add ''A'' ''x'', AddNegative ''B'' ''x'',
           UpdateFromNetwork ring_network]"]
  note one = add_negative_not_guarded[of "add_negative Cache_init ''A'' ''x''"
         "''A''" "''x''" "''A''" "''x''" "[]"]
  from seq 1 2 have 3: "\<not> (has (run_cache_ops
              [AddNegative ''A'' ''x'', Add ''A'' ''x'', AddNegative ''B'' ''x'',
               UpdateFromNetwork ring_network] Cache_init) ''A'' ''x''
        \<and> has_negative (run_cache_ops
              [AddNegative ''A'' ''x'', Add ''A'' ''x'', AddNegative ''B'' ''x'',
               UpdateFromNetwork ring_network] Cache_init) ''A'' ''x'')"
    by blast
  from seq have 4: "has_negative (add_negative Cache_init ''A'' ''x'') ''A'' ''x''" by blast
  from one have 5: "has (add (add_negative Cache_init ''A'' ''x'') ''A'' ''x'') ''A'' ''x''"
    and 6: "\<not> has_negative (add (add_negative Cache_init ''A'' ''x'') ''A'' ''x'') ''A'' ''x''"
    by blast+
  show ?thesis by (intro conjI 1 2 3 4 5 6)
qed

text \<open>
  C2 fails as stated: for a pair recorded present, \<open>add_negative\<close> changes the cache,
  and the pair is then recorded both present and absent.
\<close>

theorem add_negative_counterexample:
  "has (add Cache_init ''A'' ''x'') ''A'' ''x''
   \<and> add_negative (add Cache_init ''A'' ''x'') ''A'' ''x'' \<noteq> add Cache_init ''A'' ''x''
   \<and> has (run_cache_ops [Add ''A'' ''x'', AddNegative ''A'' ''x''] Cache_init) ''A'' ''x''
   \<and> has_negative (run_cache_ops [Add ''A'' ''x'', AddNegative ''A'' ''x''] Cache_init) ''A'' ''x''"
proof -
  have "has_negative (add_negative (add Cache_init ''A'' ''x'') ''A'' ''x'') ''A'' ''x''" by simp
  moreover have "\<not> has_negative (add Cache_init ''A'' ''x'') ''A'' ''x''" by simp
  ultimately have "add_negative (add Cache_init ''A'' ''x'') ''A'' ''x'' \<noteq> add Cache_init ''A'' ''x''"
    by metis
  then show ?thesis by simp
qed


section \<open>Invariants of the search loops\<close>

text \<open>
  A cache is true to a network when every pair it records as present is held by the
  node, and no pair it records as absent is.
\<close>

definition cache_true :: "network \<Rightarrow> Cache \<Rightarrow> bool" where
  "cache_true net c \<longleftrightarrow>
     (\<forall>n r. (has c n r \<longrightarrow> fst (has_resource net n r))
          \<and> (has_negative c n r \<longrightarrow> \<not> fst (has_resource net n r)))"

lemma cache_true_add:
  "cache_true net c \<Longrightarrow> fst (has_resource net n r) \<Longrightarrow> cache_true net (add c n r)"
  by (auto simp: cache_true_def)

lemma cache_true_add_negative:
  "cache_true net c \<Longrightarrow> \<not> fst (has_resource net n r) \<Longrightarrow> cache_true net (add_negative c n r)"
  by (auto simp: cache_true_def)

lemma cache_true_Cache_init: "cache_true net Cache_init"
  by (simp add: cache_true_def)

lemma cache_true_seeded:
  assumes "distinct (map fst (resources net))"
  shows "cache_true net (update_from_network Cache_init net)"
  using assms
  by (auto simp: cache_true_def has_update_from_network has_negative_update_from_network
      has_resource_def dict_get_def)

subsection \<open>Flooding\<close>

text \<open>
  The counter \<open>nodes_visited\<close> is the size of \<open>visited\<close>, which holds no node twice.
\<close>

definition fl_inv :: "fl_state \<Rightarrow> bool" where
  "fl_inv st \<longleftrightarrow> distinct (fl_visited st) \<and> int (length (fl_visited st)) = fl_nodes_visited st"

lemma flooding_visit_old:
  "neighbor \<in> set (fl_visited st) \<Longrightarrow>
   flooding_visit resource ttl depth pth neighbor st
     = Continue (st\<lparr>fl_messages := fl_messages st + 1\<rparr>)"
  by (simp add: flooding_visit_def)

lemma flooding_visit_found:
  "neighbor \<notin> set (fl_visited st) \<Longrightarrow> fst (has_resource (fl_network st) neighbor resource) \<Longrightarrow>
   flooding_visit resource ttl depth pth neighbor st
     = Return (\<lparr>found = True, messages = fl_messages st + 1,
                nodes_visited = fl_nodes_visited st + 1, path = pth @ [neighbor],
                all_visited = Some (fl_visited st @ [neighbor])\<rparr>, fl_network st)"
  by (simp add: flooding_visit_def has_resource_def set_add_def)

lemma flooding_visit_new:
  "neighbor \<notin> set (fl_visited st) \<Longrightarrow> \<not> fst (has_resource (fl_network st) neighbor resource) \<Longrightarrow>
   flooding_visit resource ttl depth pth neighbor st
     = Continue (st\<lparr>fl_messages := fl_messages st + 1,
                   fl_visited := fl_visited st @ [neighbor],
                   fl_nodes_visited := fl_nodes_visited st + 1,
                   fl_queue := (if depth + 1 < ttl
                                then fl_queue st @ [(neighbor, depth + 1, pth @ [neighbor])]
                                else fl_queue st)\<rparr>)"
  by (simp add: flooding_visit_def has_resource_def set_add_def)

lemma flooding_for_Continue_inv:
  "flooding_for resource ttl depth pth ns st = Continue st' \<Longrightarrow> fl_inv st \<Longrightarrow>
   fl_inv st' \<and> set (fl_visited st') = set (fl_visited st) \<union> set ns
   \<and> fl_messages st' = fl_messages st + int (length ns)"
proof (induction ns arbitrary: st)
  case Nil
  then show ?case by simp
next
  case (Cons n ns)
  consider (old) "n \<in> set (fl_visited st)"
    | (found) "n \<notin> set (fl_visited st)" "fst (has_resource (fl_network st) n resource)"
    | (new) "n \<notin> set (fl_visited st)" "\<not> fst (has_resource (fl_network st) n resource)"
    by blast
  then show ?case
  proof cases
    case old
    with Cons.prems Cons.IH[of "st\<lparr>fl_messages := fl_messages st + 1\<rparr>"] show ?thesis
      by (auto simp: flooding_visit_old fl_inv_def)
  next
    case found
    with Cons.prems show ?thesis by (simp add: flooding_visit_found)
  next
    case new
    with Cons.prems Cons.IH[of "st\<lparr>fl_messages := fl_messages st + 1,
                   fl_visited := fl_visited st @ [n],
                   fl_nodes_visited := fl_nodes_visited st + 1,
                   fl_queue := (if depth + 1 < ttl
                                then fl_queue st @ [(n, depth + 1, pth @ [n])]
                                else fl_queue st)\<rparr>"] show ?thesis
      by (auto simp: flooding_visit_new fl_inv_def)
  qed
qed

lemma flooding_for_Return:
  "flooding_for resource ttl depth pth ns st = Return (res, net') \<Longrightarrow> fl_inv st \<Longrightarrow>
   net' = fl_network st \<and> found res \<and> fl_messages st \<le> messages res
   \<and> (\<exists>V. all_visited res = Some V \<and> distinct V \<and> nodes_visited res = int (length V)
          \<and> set (fl_visited st) \<subseteq> set V \<and> set V \<subseteq> set (fl_visited st) \<union> set ns)"
proof (induction ns arbitrary: st)
  case Nil
  then show ?case by simp
next
  case (Cons n ns)
  consider (old) "n \<in> set (fl_visited st)"
    | (found) "n \<notin> set (fl_visited st)" "fst (has_resource (fl_network st) n resource)"
    | (new) "n \<notin> set (fl_visited st)" "\<not> fst (has_resource (fl_network st) n resource)"
    by blast
  then show ?case
  proof cases
    case old
    with Cons.prems Cons.IH[of "st\<lparr>fl_messages := fl_messages st + 1\<rparr>"] show ?thesis
      by (auto simp: flooding_visit_old fl_inv_def)
  next
    case found
    with Cons.prems show ?thesis by (auto simp add: flooding_visit_found fl_inv_def)
  next
    case new
    with Cons.prems Cons.IH[of "st\<lparr>fl_messages := fl_messages st + 1,
                   fl_visited := fl_visited st @ [n],
                   fl_nodes_visited := fl_nodes_visited st + 1,
                   fl_queue := (if depth + 1 < ttl
                                then fl_queue st @ [(n, depth + 1, pth @ [n])]
                                else fl_queue st)\<rparr>"] show ?thesis
      by (auto simp: flooding_visit_new fl_inv_def)
  qed
qed


lemma flooding_expand_Continue_inv:
  assumes "flooding_expand resource ttl entry st = Continue st'" and "fl_inv st"
  shows "fl_inv st' \<and> set (fl_visited st) \<subseteq> set (fl_visited st')
     \<and> set (fl_visited st') \<subseteq> set (fl_visited st) \<union> graph_nodes (graph (fl_network st))
     \<and> fl_messages st \<le> fl_messages st'"
proof -
  obtain c d p where e: "entry = (c, d, p)" by (cases entry) auto
  show ?thesis
  proof (cases "d \<ge> ttl")
    case True
    then show ?thesis using assms e by (simp add: flooding_expand_def)
  next
    case False
    with assms e
    have "flooding_for resource ttl d p (dict_get (graph (fl_network st)) c []) st = Continue st'"
      by (simp add: flooding_expand_def get_neighbors_def)
    from flooding_for_Continue_inv[OF this assms(2)]
      dict_get_graph_nodes[of "graph (fl_network st)" c]
    show ?thesis by auto
  qed
qed

lemma flooding_expand_Return:
  assumes "flooding_expand resource ttl entry st = Return (res, net')" and "fl_inv st"
  shows "net' = fl_network st \<and> found res \<and> fl_messages st \<le> messages res
   \<and> (\<exists>V. all_visited res = Some V \<and> distinct V \<and> nodes_visited res = int (length V)
          \<and> set (fl_visited st) \<subseteq> set V
          \<and> set V \<subseteq> set (fl_visited st) \<union> graph_nodes (graph (fl_network st)))"
proof -
  obtain c d p where e: "entry = (c, d, p)" by (cases entry) auto
  show ?thesis
  proof (cases "d \<ge> ttl")
    case True
    then show ?thesis using assms e by (simp add: flooding_expand_def)
  next
    case False
    with assms e
    have "flooding_for resource ttl d p (dict_get (graph (fl_network st)) c []) st
            = Return (res, net')"
      by (simp add: flooding_expand_def get_neighbors_def)
    from flooding_for_Return[OF this assms(2)]
      dict_get_graph_nodes[of "graph (fl_network st)" c]
    show ?thesis by blast
  qed
qed

lemma flooding_while_result:
  "fl_inv st \<Longrightarrow>
   \<exists>res V. flooding_while resource ttl st = (res, fl_network st)
     \<and> all_visited res = Some V \<and> distinct V \<and> nodes_visited res = int (length V)
     \<and> set (fl_visited st) \<subseteq> set V
     \<and> set V \<subseteq> set (fl_visited st) \<union> graph_nodes (graph (fl_network st))
     \<and> (\<not> found res \<longrightarrow> path res = V)
     \<and> fl_messages st \<le> messages res"
proof (induction resource ttl st rule: flooding_while.induct)
  case (1 resource ttl st)
  show ?case
  proof (cases "fl_queue st")
    case Nil
    with "1.prems" show ?thesis
      by (simp add: flooding_while.simps[of resource ttl st] fl_inv_def)
  next
    case (Cons entry q)
    have inv: "fl_inv (st\<lparr>fl_queue := q\<rparr>)" using "1.prems" by (simp add: fl_inv_def)
    show ?thesis
    proof (cases "flooding_expand resource ttl entry (st\<lparr>fl_queue := q\<rparr>)")
      case (Return r)
      obtain res net' where r: "r = (res, net')" by (cases r)
      from flooding_expand_Return[OF Return[unfolded r] inv] Cons Return r show ?thesis
        by (auto simp add: flooding_while.simps[of resource ttl st])
    next
      case (Continue st')
      from flooding_expand_Continue_inv[OF Continue inv]
      have st': "fl_inv st'" "set (fl_visited st) \<subseteq> set (fl_visited st')"
        "set (fl_visited st') \<subseteq> set (fl_visited st) \<union> graph_nodes (graph (fl_network st))"
        "fl_messages st \<le> fl_messages st'" by auto
      from flooding_expand_Continue[OF Continue] have net: "fl_network st' = fl_network st"
        by simp
      from "1.IH"[OF Cons Continue st'(1)] obtain res V
        where "flooding_while resource ttl st' = (res, fl_network st')"
          "all_visited res = Some V" "distinct V" "nodes_visited res = int (length V)"
          "set (fl_visited st') \<subseteq> set V"
          "set V \<subseteq> set (fl_visited st') \<union> graph_nodes (graph (fl_network st'))"
          "\<not> found res \<longrightarrow> path res = V" "fl_messages st' \<le> messages res"
        by blast
      with st' net Cons Continue show ?thesis
        by (auto simp add: flooding_while.simps[of resource ttl st])
    qed
  qed
qed

subsection \<open>Informed flooding\<close>

definition ifl_inv :: "ifl_state \<Rightarrow> bool" where
  "ifl_inv st \<longleftrightarrow>
     distinct (ifl_visited st) \<and> int (length (ifl_visited st)) = ifl_nodes_visited st"

lemma informed_flooding_visit_old:
  "neighbor \<in> set (ifl_visited st) \<Longrightarrow>
   informed_flooding_visit resource ttl depth pth neighbor st
     = Continue (st\<lparr>ifl_messages := ifl_messages st + 1\<rparr>)"
  by (simp add: informed_flooding_visit_def)

lemma informed_flooding_visit_found:
  "neighbor \<notin> set (ifl_visited st) \<Longrightarrow> fst (has_resource (ifl_network st) neighbor resource) \<Longrightarrow>
   informed_flooding_visit resource ttl depth pth neighbor st
     = Return (\<lparr>found = True, messages = ifl_messages st + 1,
                nodes_visited = ifl_nodes_visited st + 1, path = pth @ [neighbor],
                all_visited = None\<rparr>, ifl_network st, add (ifl_cache st) neighbor resource)"
  by (simp add: informed_flooding_visit_def has_resource_def set_add_def)

lemma informed_flooding_visit_new:
  "neighbor \<notin> set (ifl_visited st) \<Longrightarrow>
   \<not> fst (has_resource (ifl_network st) neighbor resource) \<Longrightarrow>
   informed_flooding_visit resource ttl depth pth neighbor st
     = Continue (st\<lparr>ifl_messages := ifl_messages st + 1,
                   ifl_visited := ifl_visited st @ [neighbor],
                   ifl_nodes_visited := ifl_nodes_visited st + 1,
                   ifl_cache := add_negative (ifl_cache st) neighbor resource,
                   ifl_queue := (if depth + 1 < ttl
                                 then ifl_queue st @ [(neighbor, depth + 1, pth @ [neighbor])]
                                 else ifl_queue st)\<rparr>)"
  by (simp add: informed_flooding_visit_def has_resource_def set_add_def)

lemma informed_flooding_for_Continue_inv:
  "informed_flooding_for resource ttl depth pth ns st = Continue st' \<Longrightarrow> ifl_inv st \<Longrightarrow>
   ifl_inv st' \<and> set (ifl_visited st') = set (ifl_visited st) \<union> set ns
   \<and> ifl_messages st' = ifl_messages st + int (length ns)
   \<and> (cache_true (ifl_network st) (ifl_cache st) \<longrightarrow> cache_true (ifl_network st) (ifl_cache st'))"
proof (induction ns arbitrary: st)
  case Nil
  then show ?case by simp
next
  case (Cons n ns)
  consider (old) "n \<in> set (ifl_visited st)"
    | (found) "n \<notin> set (ifl_visited st)" "fst (has_resource (ifl_network st) n resource)"
    | (new) "n \<notin> set (ifl_visited st)" "\<not> fst (has_resource (ifl_network st) n resource)"
    by blast
  then show ?case
  proof cases
    case old
    with Cons.prems Cons.IH[of "st\<lparr>ifl_messages := ifl_messages st + 1\<rparr>"] show ?thesis
      by (auto simp: informed_flooding_visit_old ifl_inv_def)
  next
    case found
    with Cons.prems show ?thesis by (simp add: informed_flooding_visit_found)
  next
    case new
    with Cons.prems Cons.IH[of "st\<lparr>ifl_messages := ifl_messages st + 1,
                   ifl_visited := ifl_visited st @ [n],
                   ifl_nodes_visited := ifl_nodes_visited st + 1,
                   ifl_cache := add_negative (ifl_cache st) n resource,
                   ifl_queue := (if depth + 1 < ttl
                                 then ifl_queue st @ [(n, depth + 1, pth @ [n])]
                                 else ifl_queue st)\<rparr>"] show ?thesis
      by (auto simp: informed_flooding_visit_new ifl_inv_def cache_true_add_negative)
  qed
qed

lemma informed_flooding_for_Return:
  "informed_flooding_for resource ttl depth pth ns st = Return (res, net', c') \<Longrightarrow> ifl_inv st \<Longrightarrow>
   net' = ifl_network st \<and> found res \<and> ifl_messages st \<le> messages res
   \<and> all_visited res = None
   \<and> (\<exists>V. distinct V \<and> nodes_visited res = int (length V)
          \<and> set (ifl_visited st) \<subseteq> set V \<and> set V \<subseteq> set (ifl_visited st) \<union> set ns)
   \<and> (cache_true (ifl_network st) (ifl_cache st) \<longrightarrow> cache_true (ifl_network st) c')"
proof (induction ns arbitrary: st)
  case Nil
  then show ?case by simp
next
  case (Cons n ns)
  consider (old) "n \<in> set (ifl_visited st)"
    | (found) "n \<notin> set (ifl_visited st)" "fst (has_resource (ifl_network st) n resource)"
    | (new) "n \<notin> set (ifl_visited st)" "\<not> fst (has_resource (ifl_network st) n resource)"
    by blast
  then show ?case
  proof cases
    case old
    with Cons.prems Cons.IH[of "st\<lparr>ifl_messages := ifl_messages st + 1\<rparr>"] show ?thesis
      by (auto simp: informed_flooding_visit_old ifl_inv_def)
  next
    case found
    from found Cons.prems have res: "res = \<lparr>found = True, messages = ifl_messages st + 1,
                nodes_visited = ifl_nodes_visited st + 1, path = pth @ [n],
                all_visited = None\<rparr>" "net' = ifl_network st" "c' = add (ifl_cache st) n resource"
      by (simp_all add: informed_flooding_visit_found)
    have "distinct (ifl_visited st @ [n]) \<and> nodes_visited res = int (length (ifl_visited st @ [n]))
          \<and> set (ifl_visited st) \<subseteq> set (ifl_visited st @ [n])
          \<and> set (ifl_visited st @ [n]) \<subseteq> set (ifl_visited st) \<union> set (n # ns)"
      using found Cons.prems(2) res by (auto simp: ifl_inv_def)
    then have "\<exists>V. distinct V \<and> nodes_visited res = int (length V)
          \<and> set (ifl_visited st) \<subseteq> set V \<and> set V \<subseteq> set (ifl_visited st) \<union> set (n # ns)"
      by blast
    with res found show ?thesis by (simp add: cache_true_add)
  next
    case new
    with Cons.prems Cons.IH[of "st\<lparr>ifl_messages := ifl_messages st + 1,
                   ifl_visited := ifl_visited st @ [n],
                   ifl_nodes_visited := ifl_nodes_visited st + 1,
                   ifl_cache := add_negative (ifl_cache st) n resource,
                   ifl_queue := (if depth + 1 < ttl
                                 then ifl_queue st @ [(n, depth + 1, pth @ [n])]
                                 else ifl_queue st)\<rparr>"] show ?thesis
      by (auto simp: informed_flooding_visit_new ifl_inv_def cache_true_add_negative)
  qed
qed


lemma filtered_neighbors_subset:
  "set (filtered_neighbors c resource ns) \<subseteq> set ns"
  by (auto simp: filtered_neighbors_def)

lemma informed_flooding_expand_Continue_inv:
  assumes "informed_flooding_expand resource ttl entry st = Continue st'" and "ifl_inv st"
  shows "ifl_inv st' \<and> set (ifl_visited st) \<subseteq> set (ifl_visited st')
     \<and> set (ifl_visited st') \<subseteq> set (ifl_visited st) \<union> graph_nodes (graph (ifl_network st))
     \<and> ifl_messages st \<le> ifl_messages st'
     \<and> (cache_true (ifl_network st) (ifl_cache st)
          \<longrightarrow> cache_true (ifl_network st) (ifl_cache st'))"
proof -
  obtain c d p where e: "entry = (c, d, p)" by (cases entry) auto
  show ?thesis
  proof (cases "d \<ge> ttl")
    case True
    then show ?thesis using assms e by (simp add: informed_flooding_expand_def)
  next
    case False
    let ?ns = "filtered_neighbors (ifl_cache st) resource (dict_get (graph (ifl_network st)) c [])"
    from False assms e
    have "informed_flooding_for resource ttl d p ?ns st = Continue st'"
      by (simp add: informed_flooding_expand_def get_neighbors_def)
    from informed_flooding_for_Continue_inv[OF this assms(2)]
      dict_get_graph_nodes[of "graph (ifl_network st)" c]
      filtered_neighbors_subset[of "ifl_cache st" resource "dict_get (graph (ifl_network st)) c []"]
    show ?thesis by auto
  qed
qed

lemma informed_flooding_expand_Return:
  assumes "informed_flooding_expand resource ttl entry st = Return (res, net', c')"
    and "ifl_inv st"
  shows "net' = ifl_network st \<and> found res \<and> ifl_messages st \<le> messages res
   \<and> all_visited res = None
   \<and> (\<exists>V. distinct V \<and> nodes_visited res = int (length V)
          \<and> set (ifl_visited st) \<subseteq> set V
          \<and> set V \<subseteq> set (ifl_visited st) \<union> graph_nodes (graph (ifl_network st)))
   \<and> (cache_true (ifl_network st) (ifl_cache st) \<longrightarrow> cache_true (ifl_network st) c')"
proof -
  obtain c d p where e: "entry = (c, d, p)" by (cases entry) auto
  show ?thesis
  proof (cases "d \<ge> ttl")
    case True
    then show ?thesis using assms e by (simp add: informed_flooding_expand_def)
  next
    case False
    let ?ns = "filtered_neighbors (ifl_cache st) resource (dict_get (graph (ifl_network st)) c [])"
    from False assms e
    have "informed_flooding_for resource ttl d p ?ns st = Return (res, net', c')"
      by (simp add: informed_flooding_expand_def get_neighbors_def)
    from informed_flooding_for_Return[OF this assms(2)]
    obtain V where V: "net' = ifl_network st" "found res" "ifl_messages st \<le> messages res"
      "all_visited res = None" "distinct V" "nodes_visited res = int (length V)"
      "set (ifl_visited st) \<subseteq> set V" "set V \<subseteq> set (ifl_visited st) \<union> set ?ns"
      "cache_true (ifl_network st) (ifl_cache st) \<longrightarrow> cache_true (ifl_network st) c'"
      by blast
    have "set ?ns \<subseteq> graph_nodes (graph (ifl_network st))"
      using dict_get_graph_nodes[of "graph (ifl_network st)" c]
        filtered_neighbors_subset[of "ifl_cache st" resource "dict_get (graph (ifl_network st)) c []"]
      by blast
    with V have "set V \<subseteq> set (ifl_visited st) \<union> graph_nodes (graph (ifl_network st))" by blast
    with V show ?thesis by blast
  qed
qed

lemma informed_flooding_while_result:
  "ifl_inv st \<Longrightarrow>
   \<exists>res c' V. informed_flooding_while resource ttl st = (res, ifl_network st, c')
     \<and> all_visited res = None \<and> distinct V \<and> nodes_visited res = int (length V)
     \<and> set (ifl_visited st) \<subseteq> set V
     \<and> set V \<subseteq> set (ifl_visited st) \<union> graph_nodes (graph (ifl_network st))
     \<and> (\<not> found res \<longrightarrow> path res = V)
     \<and> ifl_messages st \<le> messages res
     \<and> (cache_true (ifl_network st) (ifl_cache st) \<longrightarrow> cache_true (ifl_network st) c')"
proof (induction resource ttl st rule: informed_flooding_while.induct)
  case (1 resource ttl st)
  show ?case
  proof (cases "ifl_queue st")
    case Nil
    with "1.prems" show ?thesis
      by (simp add: informed_flooding_while.simps[of resource ttl st] ifl_inv_def)
  next
    case (Cons entry q)
    have inv: "ifl_inv (st\<lparr>ifl_queue := q\<rparr>)" using "1.prems" by (simp add: ifl_inv_def)
    show ?thesis
    proof (cases "informed_flooding_expand resource ttl entry (st\<lparr>ifl_queue := q\<rparr>)")
      case (Return r)
      obtain res net' c' where r: "r = (res, net', c')" by (cases r)
      from informed_flooding_expand_Return[OF Return[unfolded r] inv] Cons Return r show ?thesis
        by (auto simp add: informed_flooding_while.simps[of resource ttl st])
    next
      case (Continue st')
      from informed_flooding_expand_Continue_inv[OF Continue inv]
      have st': "ifl_inv st'" "set (ifl_visited st) \<subseteq> set (ifl_visited st')"
        "set (ifl_visited st') \<subseteq> set (ifl_visited st) \<union> graph_nodes (graph (ifl_network st))"
        "ifl_messages st \<le> ifl_messages st'"
        "cache_true (ifl_network st) (ifl_cache st) \<longrightarrow> cache_true (ifl_network st) (ifl_cache st')"
        by auto
      from informed_flooding_expand_Continue[OF Continue]
      have net: "ifl_network st' = ifl_network st" by simp
      from "1.IH"[OF Cons Continue st'(1)] obtain res c' V
        where IH: "informed_flooding_while resource ttl st' = (res, ifl_network st', c')"
          "all_visited res = None" "distinct V" "nodes_visited res = int (length V)"
          "set (ifl_visited st') \<subseteq> set V"
          "set V \<subseteq> set (ifl_visited st') \<union> graph_nodes (graph (ifl_network st'))"
          "\<not> found res \<longrightarrow> path res = V" "ifl_messages st' \<le> messages res"
          "cache_true (ifl_network st') (ifl_cache st') \<longrightarrow> cache_true (ifl_network st') c'"
        by blast
      have eq: "informed_flooding_while resource ttl st = (res, ifl_network st, c')"
        using Cons Continue IH(1) net
        by (simp add: informed_flooding_while.simps[of resource ttl st])
      have "set (ifl_visited st) \<subseteq> set V" using st'(2) IH(5) by blast
      moreover have "set V \<subseteq> set (ifl_visited st) \<union> graph_nodes (graph (ifl_network st))"
        using st'(3) IH(6) net by auto
      moreover have "ifl_messages st \<le> messages res" using st'(4) IH(8) by simp
      moreover have "cache_true (ifl_network st) (ifl_cache st)
                       \<longrightarrow> cache_true (ifl_network st) c'"
        using st'(5) IH(9) net by simp
      ultimately show ?thesis using eq IH(2,3,4,7) by blast
    qed
  qed
qed

subsection \<open>Random walk\<close>

text \<open>
  The walk never draws from an empty sequence; the path has one node more than the
  messages sent, and \<open>messages\<close> and \<open>steps\<close> move together.
\<close>

lemma random_choice_nonempty:
  "seq \<noteq> [] \<Longrightarrow> \<exists>x. random_choice r seq = Inr x \<and> x \<in> set seq"
  by (simp add: random_choice_def)

lemma candidate_neighbors_nonempty:
  "neighbors \<noteq> [] \<Longrightarrow> candidate_neighbors c resource neighbors \<noteq> []"
  by (simp add: candidate_neighbors_def Let_def)

definition rw_inv :: "rw_state \<Rightarrow> bool" where
  "rw_inv st \<longleftrightarrow> int (length (rw_path st)) = rw_messages st + 1 \<and> rw_messages st = rw_steps st"

lemma random_walk_step_Continue:
  assumes "random_walk_step resource next_node st = Continue st'" and "rw_inv st"
  shows "rw_network st' = rw_network st \<and> rw_inv st' \<and> rw_steps st' = rw_steps st + 1"
  using assms
  by (auto simp: random_walk_step_def Let_def has_resource_def rw_inv_def split: if_splits)

lemma random_walk_step_Return:
  assumes "random_walk_step resource next_node st = Return (res, net')" and "rw_inv st"
  shows "net' = rw_network st \<and> int (length (path res)) = messages res + 1
         \<and> messages res = rw_steps st + 1"
  using assms
  by (auto simp: random_walk_step_def Let_def has_resource_def rw_inv_def split: if_splits)

lemma random_walk_while_result:
  "rw_inv st \<Longrightarrow>
   \<exists>res. random_walk_while rnd resource ttl st = Inr (res, rw_network st)
       \<and> int (length (path res)) = messages res + 1
       \<and> (rw_steps st \<le> ttl \<longrightarrow> messages res \<le> ttl)"
proof (induction rnd resource ttl st rule: random_walk_while.induct)
  case (1 rnd resource ttl st)
  show ?case
  proof (cases "rw_steps st < ttl")
    case False
    with "1.prems" show ?thesis
      by (simp add: random_walk_while.simps[of rnd resource ttl st] random_walk_end_def rw_inv_def)
  next
    case True
    let ?ns = "dict_get (graph (rw_network st)) (rw_current st) []"
    show ?thesis
    proof (cases "?ns = []")
      case e: True
      with True "1.prems" show ?thesis
        by (simp add: random_walk_while.simps[of rnd resource ttl st] random_walk_end_def rw_inv_def
            get_neighbors_def)
    next
      case ne: False
      from random_choice_nonempty[OF ne] obtain x
        where x: "random_choice (rnd (nat (rw_steps st))) ?ns = Inr x" by blast
      show ?thesis
      proof (cases "random_walk_step resource x st")
        case (Return r)
        obtain res net' where r: "r = (res, net')" by (cases r)
        from random_walk_step_Return[OF Return[unfolded r] "1.prems"] True ne x Return r
        show ?thesis
          by (simp add: random_walk_while.simps[of rnd resource ttl st] get_neighbors_def)
      next
        case (Continue st')
        from random_walk_step_Continue[OF Continue "1.prems"]
        have st': "rw_network st' = rw_network st" "rw_inv st'" "rw_steps st' = rw_steps st + 1"
          by auto
        have "\<exists>res. random_walk_while rnd resource ttl st' = Inr (res, rw_network st')
           \<and> int (length (path res)) = messages res + 1
           \<and> (rw_steps st' \<le> ttl \<longrightarrow> messages res \<le> ttl)"
          using "1.IH"[OF True _ _ ne x Continue st'(2)] by (simp add: get_neighbors_def)
        with st' True ne x Continue show ?thesis
          by (auto simp add: random_walk_while.simps[of rnd resource ttl st] get_neighbors_def)
      qed
    qed
  qed
qed

subsection \<open>Informed random walk\<close>

definition irw_inv :: "irw_state \<Rightarrow> bool" where
  "irw_inv st \<longleftrightarrow>
     int (length (irw_path st)) = irw_messages st + 1 \<and> irw_messages st = irw_steps st"

lemma informed_random_walk_step_Continue:
  assumes "informed_random_walk_step resource next_node st = Continue st'" and "irw_inv st"
  shows "irw_network st' = irw_network st \<and> irw_inv st' \<and> irw_steps st' = irw_steps st + 1
     \<and> (cache_true (irw_network st) (irw_cache st)
          \<longrightarrow> cache_true (irw_network st) (irw_cache st'))"
  using assms
  by (auto simp: informed_random_walk_step_def Let_def has_resource_def irw_inv_def
      cache_true_def split: if_splits)

lemma informed_random_walk_step_Return:
  assumes "informed_random_walk_step resource next_node st = Return (res, net', c')"
    and "irw_inv st"
  shows "net' = irw_network st \<and> int (length (path res)) = messages res + 1
     \<and> messages res = irw_steps st + 1
     \<and> (cache_true (irw_network st) (irw_cache st) \<longrightarrow> cache_true (irw_network st) c')"
  using assms
  by (auto simp: informed_random_walk_step_def Let_def has_resource_def irw_inv_def
      cache_true_def split: if_splits)

lemma informed_random_walk_while_result:
  "irw_inv st \<Longrightarrow>
   \<exists>res c'. informed_random_walk_while rnd resource ttl st = Inr (res, irw_network st, c')
       \<and> int (length (path res)) = messages res + 1
       \<and> (irw_steps st \<le> ttl \<longrightarrow> messages res \<le> ttl)
       \<and> (cache_true (irw_network st) (irw_cache st) \<longrightarrow> cache_true (irw_network st) c')"
proof (induction rnd resource ttl st rule: informed_random_walk_while.induct)
  case (1 rnd resource ttl st)
  show ?case
  proof (cases "irw_steps st < ttl")
    case False
    with "1.prems" show ?thesis
      by (simp add: informed_random_walk_while.simps[of rnd resource ttl st]
          informed_random_walk_end_def irw_inv_def)
  next
    case True
    let ?ns = "dict_get (graph (irw_network st)) (irw_current st) []"
    show ?thesis
    proof (cases "?ns = []")
      case e: True
      with True "1.prems" show ?thesis
        by (simp add: informed_random_walk_while.simps[of rnd resource ttl st]
            informed_random_walk_end_def irw_inv_def get_neighbors_def)
    next
      case ne: False
      from random_choice_nonempty[OF candidate_neighbors_nonempty[OF ne]] obtain x
        where x: "random_choice (rnd (nat (irw_steps st)))
                    (candidate_neighbors (irw_cache st) resource ?ns) = Inr x" by blast
      show ?thesis
      proof (cases "informed_random_walk_step resource x st")
        case (Return r)
        obtain res net' c' where r: "r = (res, net', c')" by (cases r)
        from informed_random_walk_step_Return[OF Return[unfolded r] "1.prems"] True ne x Return r
        show ?thesis
          by (simp add: informed_random_walk_while.simps[of rnd resource ttl st] get_neighbors_def)
      next
        case (Continue st')
        from informed_random_walk_step_Continue[OF Continue "1.prems"]
        have st': "irw_network st' = irw_network st" "irw_inv st'"
          "irw_steps st' = irw_steps st + 1"
          "cache_true (irw_network st) (irw_cache st)
             \<longrightarrow> cache_true (irw_network st) (irw_cache st')"
          by auto
        have "\<exists>res c'. informed_random_walk_while rnd resource ttl st'
               = Inr (res, irw_network st', c')
           \<and> int (length (path res)) = messages res + 1
           \<and> (irw_steps st' \<le> ttl \<longrightarrow> messages res \<le> ttl)
           \<and> (cache_true (irw_network st') (irw_cache st')
                \<longrightarrow> cache_true (irw_network st') c')"
          using "1.IH"[OF True _ _ ne x Continue st'(2)] by (simp add: get_neighbors_def)
        then obtain res c' where IH:
          "informed_random_walk_while rnd resource ttl st' = Inr (res, irw_network st', c')"
          "int (length (path res)) = messages res + 1"
          "irw_steps st' \<le> ttl \<longrightarrow> messages res \<le> ttl"
          "cache_true (irw_network st') (irw_cache st') \<longrightarrow> cache_true (irw_network st') c'"
          by blast
        have eq: "informed_random_walk_while rnd resource ttl st
                    = Inr (res, irw_network st, c')"
          using True ne x Continue IH(1) st'(1)
          by (simp add: informed_random_walk_while.simps[of rnd resource ttl st] get_neighbors_def)
        have "irw_steps st \<le> ttl \<longrightarrow> messages res \<le> ttl" using IH(3) st'(3) True by simp
        moreover have "cache_true (irw_network st) (irw_cache st)
                         \<longrightarrow> cache_true (irw_network st) c'"
          using IH(4) st'(1,4) by simp
        ultimately show ?thesis using eq IH(2) by blast
      qed
    qed
  qed
qed

section \<open>What every call returns\<close>

text \<open>
  Each strategy returns for every input; the lemmas collect what the result and the
  objects it leaves behind satisfy.
\<close>

lemma fl_inv_init: "fl_inv (flooding_init net s)"
  by (simp add: fl_inv_def flooding_init_def set_add_def)

lemma ifl_inv_init: "ifl_inv (informed_flooding_init net c s)"
  by (simp add: ifl_inv_def informed_flooding_init_def set_add_def)

lemma rw_inv_init: "rw_inv (random_walk_init net s)"
  by (simp add: rw_inv_def random_walk_init_def)

lemma irw_inv_init: "irw_inv (informed_random_walk_init net c s)"
  by (simp add: irw_inv_def informed_random_walk_init_def)

lemma random_walk_total:
  "\<exists>res. random_walk rnd net s r ttl = Inr (res, net)
     \<and> (s \<in> fst (get_all_nodes net) \<longrightarrow> int (length (path res)) - 1 = messages res)
     \<and> (s \<notin> fst (get_all_nodes net) \<longrightarrow> path res = [] \<and> messages res = 0)
     \<and> (0 \<le> ttl \<longrightarrow> messages res \<le> ttl)"
proof -
  from random_walk_while_result[OF rw_inv_init, of rnd r ttl net s]
  obtain res where "random_walk_while rnd r ttl (random_walk_init net s) = Inr (res, net)"
    "int (length (path res)) = messages res + 1" "0 \<le> ttl \<longrightarrow> messages res \<le> ttl"
    by (auto simp: random_walk_init_def)
  then show ?thesis
    by (auto simp: random_walk_def get_all_nodes_def has_resource_def)
qed

lemma informed_random_walk_total:
  "\<exists>res c'. informed_random_walk rnd net s r ttl cache_arg = Inr (res, net, c')
     \<and> (s \<in> fst (get_all_nodes net) \<longrightarrow> int (length (path res)) - 1 = messages res)
     \<and> (s \<notin> fst (get_all_nodes net) \<longrightarrow> path res = [] \<and> messages res = 0)
     \<and> (0 \<le> ttl \<longrightarrow> messages res \<le> ttl)
     \<and> (cache_true net (case cache_arg of None \<Rightarrow> update_from_network Cache_init net
                                          | Some c \<Rightarrow> c) \<longrightarrow> cache_true net c')"
proof -
  define c where "c = (case cache_arg of None \<Rightarrow> update_from_network Cache_init net | Some c \<Rightarrow> c)"
  from informed_random_walk_while_result[OF irw_inv_init, of rnd r ttl net c s]
  obtain res c' where
    "informed_random_walk_while rnd r ttl (informed_random_walk_init net c s) = Inr (res, net, c')"
    "int (length (path res)) = messages res + 1" "0 \<le> ttl \<longrightarrow> messages res \<le> ttl"
    "cache_true net c \<longrightarrow> cache_true net c'"
    by (auto simp: informed_random_walk_init_def)
  then show ?thesis unfolding c_def[symmetric]
    by (auto simp: informed_random_walk_def get_all_nodes_def has_resource_def Let_def c_def[symmetric]
        cache_true_add)
qed

lemma flooding_total:
  "\<exists>res. flooding net s r ttl = (res, net)
     \<and> (s \<in> fst (get_all_nodes net) \<longrightarrow>
          (\<exists>V. distinct V \<and> nodes_visited res = int (length V) \<and> s \<in> set V
             \<and> set V \<subseteq> insert s (graph_nodes (graph net))
             \<and> (\<not> found res \<longrightarrow> path res = V \<and> all_visited res = Some V)))"
proof -
  from flooding_while_result[OF fl_inv_init, of r ttl net s]
  obtain res V where "flooding_while r ttl (flooding_init net s) = (res, net)"
    "all_visited res = Some V" "distinct V" "nodes_visited res = int (length V)"
    "s \<in> set V" "set V \<subseteq> insert s (graph_nodes (graph net))" "\<not> found res \<longrightarrow> path res = V"
    by (auto simp: flooding_init_def set_add_def)
  then have w: "\<exists>res. flooding_while r ttl (flooding_init net s) = (res, net)
     \<and> (\<exists>V. distinct V \<and> nodes_visited res = int (length V) \<and> s \<in> set V
             \<and> set V \<subseteq> insert s (graph_nodes (graph net))
             \<and> (\<not> found res \<longrightarrow> path res = V \<and> all_visited res = Some V))"
    by blast
  have one: "\<exists>V. distinct V \<and> (1::int) = int (length V) \<and> s \<in> set V
     \<and> set V \<subseteq> insert s (graph_nodes (graph net))"
    by (rule exI[of _ "[s]"]) simp
  show ?thesis
  proof (cases "s \<in> fst (get_all_nodes net)")
    case False
    then show ?thesis by (simp add: flooding_def get_all_nodes_def)
  next
    case True
    show ?thesis
    proof (cases "fst (has_resource net s r)")
      case hr: True
      with True one show ?thesis
        by (simp add: flooding_def get_all_nodes_def has_resource_def)
    next
      case hr: False
      with True w show ?thesis
        by (simp add: flooding_def get_all_nodes_def has_resource_def)
    qed
  qed
qed

lemma informed_flooding_total:
  "\<exists>res c'. informed_flooding net s r ttl cache_arg = (res, net, c')
     \<and> all_visited res = None
     \<and> (s \<in> fst (get_all_nodes net) \<longrightarrow>
          (\<exists>V. distinct V \<and> nodes_visited res = int (length V) \<and> s \<in> set V
             \<and> set V \<subseteq> insert s (graph_nodes (graph net))
             \<and> (\<not> found res \<longrightarrow> path res = V)))
     \<and> (cache_true net (case cache_arg of None \<Rightarrow> update_from_network Cache_init net
                                          | Some c \<Rightarrow> c) \<longrightarrow> cache_true net c')"
proof -
  define c where "c = (case cache_arg of None \<Rightarrow> update_from_network Cache_init net | Some c \<Rightarrow> c)"
  from informed_flooding_while_result[OF ifl_inv_init, of r ttl net c s]
  obtain res c' V where
    "informed_flooding_while r ttl (informed_flooding_init net c s) = (res, net, c')"
    "all_visited res = None" "distinct V" "nodes_visited res = int (length V)"
    "s \<in> set V" "set V \<subseteq> insert s (graph_nodes (graph net))" "\<not> found res \<longrightarrow> path res = V"
    "cache_true net c \<longrightarrow> cache_true net c'"
    by (auto simp: informed_flooding_init_def set_add_def)
  then have w: "\<exists>res c'. informed_flooding_while r ttl (informed_flooding_init net c s) = (res, net, c')
     \<and> all_visited res = None
     \<and> (\<exists>V. distinct V \<and> nodes_visited res = int (length V) \<and> s \<in> set V
             \<and> set V \<subseteq> insert s (graph_nodes (graph net))
             \<and> (\<not> found res \<longrightarrow> path res = V))
     \<and> (cache_true net c \<longrightarrow> cache_true net c')"
    by blast
  have one: "\<exists>V. distinct V \<and> (1::int) = int (length V) \<and> s \<in> set V
     \<and> set V \<subseteq> insert s (graph_nodes (graph net))"
    by (rule exI[of _ "[s]"]) simp
  have main: "\<exists>res c'. informed_flooding net s r ttl cache_arg = (res, net, c')
     \<and> all_visited res = None
     \<and> (s \<in> fst (get_all_nodes net) \<longrightarrow>
          (\<exists>V. distinct V \<and> nodes_visited res = int (length V) \<and> s \<in> set V
             \<and> set V \<subseteq> insert s (graph_nodes (graph net))
             \<and> (\<not> found res \<longrightarrow> path res = V)))
     \<and> (cache_true net c \<longrightarrow> cache_true net c')"
  proof (cases "s \<in> fst (get_all_nodes net)")
    case False
    then show ?thesis
      by (simp add: informed_flooding_def get_all_nodes_def c_def[symmetric] Let_def)
  next
    case True
    show ?thesis
    proof (cases "has c s r")
      case h: True
      with True one show ?thesis
        by (simp add: informed_flooding_def get_all_nodes_def c_def[symmetric] Let_def)
    next
      case h: False
      show ?thesis
      proof (cases "fst (has_resource net s r)")
        case hr: True
        have "cache_true net c \<longrightarrow> cache_true net (add c s r)"
          using hr by (simp add: cache_true_add)
        with True one h hr show ?thesis
          by (simp add: informed_flooding_def get_all_nodes_def has_resource_def
              c_def[symmetric] Let_def)
      next
        case hr: False
        with True w h show ?thesis
          by (simp add: informed_flooding_def get_all_nodes_def has_resource_def
              c_def[symmetric] Let_def)
      qed
    qed
  qed
  then show ?thesis by (simp add: c_def)
qed

section \<open>Path length and message count of the random walks\<close>

text \<open>
  C3, as the code has it. Both random walks return for every input. When the start
  node is a node of the network, the path has exactly one node more than the number of
  messages; when it is not, the path is empty and no message is sent. When the TTL is
  not negative, the number of messages is at most the TTL.
\<close>

theorem random_walk_path_and_messages:
  "(\<exists>res. random_walk rnd net start_node resource ttl = Inr (res, net)
       \<and> (start_node \<in> fst (get_all_nodes net) \<longrightarrow> int (length (path res)) - 1 = messages res)
       \<and> (start_node \<notin> fst (get_all_nodes net) \<longrightarrow> path res = [] \<and> messages res = 0)
       \<and> (0 \<le> ttl \<longrightarrow> messages res \<le> ttl))
   \<and> (\<exists>res c'. informed_random_walk rnd net start_node resource ttl cache_arg = Inr (res, net, c')
       \<and> (start_node \<in> fst (get_all_nodes net) \<longrightarrow> int (length (path res)) - 1 = messages res)
       \<and> (start_node \<notin> fst (get_all_nodes net) \<longrightarrow> path res = [] \<and> messages res = 0)
       \<and> (0 \<le> ttl \<longrightarrow> messages res \<le> ttl))"
proof -
  from informed_random_walk_total[of rnd net start_node resource ttl cache_arg]
  have "\<exists>res c'. informed_random_walk rnd net start_node resource ttl cache_arg = Inr (res, net, c')
       \<and> (start_node \<in> fst (get_all_nodes net) \<longrightarrow> int (length (path res)) - 1 = messages res)
       \<and> (start_node \<notin> fst (get_all_nodes net) \<longrightarrow> path res = [] \<and> messages res = 0)
       \<and> (0 \<le> ttl \<longrightarrow> messages res \<le> ttl)"
    by blast
  with random_walk_total[of rnd net start_node resource ttl] show ?thesis by blast
qed

theorem random_walk_path_and_messages_witness:
  "''A'' \<in> fst (get_all_nodes ring_network) \<and> (0::int) \<le> 3
   \<and> (\<exists>res. random_walk (\<lambda>k. k) ring_network ''A'' ''y'' 3 = Inr (res, ring_network)
         \<and> int (length (path res)) - 1 = messages res \<and> messages res \<le> 3)
   \<and> (\<exists>res c'. informed_random_walk (\<lambda>k. k) ring_network ''A'' ''y'' 3 None
                   = Inr (res, ring_network, c')
         \<and> int (length (path res)) - 1 = messages res \<and> messages res \<le> 3)"
proof -
  have 1: "''A'' \<in> fst (get_all_nodes ring_network)"
    by (simp add: ring_network_def network_defs)
  from random_walk_path_and_messages[of "\<lambda>k. k" ring_network "''A''" "''y''" 3 None] 1
  show ?thesis by auto
qed

text \<open>
  C3 fails as stated for a start node outside the network, where the path is empty and
  \<open>len(path) - 1\<close> is \<open>-1\<close> with zero messages, and for a negative TTL, which zero
  messages exceed.
\<close>

theorem random_walk_path_and_messages_counterexample:
  "(\<exists>res. random_walk (\<lambda>k. k) ring_network ''Z'' ''y'' 3 = Inr (res, ring_network)
       \<and> int (length (path res)) - 1 \<noteq> messages res)
   \<and> (\<exists>res. random_walk (\<lambda>k. k) ring_network ''A'' ''z'' (- 1) = Inr (res, ring_network)
       \<and> \<not> messages res \<le> - 1)"
proof -
  have "random_walk (\<lambda>k. k) ring_network ''Z'' ''y'' 3
          = Inr (\<lparr>found = False, messages = 0, nodes_visited = 0, path = [],
                   all_visited = None\<rparr>, ring_network)"
    by (simp add: random_walk_def ring_network_def network_defs)
  moreover have "random_walk (\<lambda>k. k) ring_network ''A'' ''z'' (- 1)
          = Inr (\<lparr>found = False, messages = 0, nodes_visited = 1, path = [''A''],
                   all_visited = None\<rparr>, ring_network)"
    by (simp add: random_walk_def random_walk_while.simps random_walk_init_def
        random_walk_end_def ring_network_def network_defs)
  ultimately show ?thesis by simp
qed

section \<open>The network object after a search\<close>

text \<open>
  C8. Every strategy hands back the network object exactly as it received it: node
  set, adjacency and resources are those of the call. The strategies reach the network
  through \<open>get_all_nodes\<close>, \<open>has_resource\<close> and \<open>get_neighbors\<close> only.
\<close>

theorem strategies_leave_network_unchanged:
  "snd (flooding net start_node resource ttl) = net
   \<and> fst (snd (informed_flooding net start_node resource ttl cache_arg)) = net
   \<and> (\<exists>res. random_walk rnd net start_node resource ttl = Inr (res, net))
   \<and> (\<exists>res c'. informed_random_walk rnd net start_node resource ttl cache_arg
                  = Inr (res, net, c'))"
proof -
  from flooding_total[of net start_node resource ttl]
  have "snd (flooding net start_node resource ttl) = net" by auto
  moreover from informed_flooding_total[of net start_node resource ttl cache_arg]
  have "fst (snd (informed_flooding net start_node resource ttl cache_arg)) = net" by auto
  moreover from random_walk_total[of rnd net start_node resource ttl]
  have "\<exists>res. random_walk rnd net start_node resource ttl = Inr (res, net)" by blast
  moreover from informed_random_walk_total[of rnd net start_node resource ttl cache_arg]
  have "\<exists>res c'. informed_random_walk rnd net start_node resource ttl cache_arg
                  = Inr (res, net, c')" by blast
  ultimately show ?thesis by blast
qed

section \<open>The dispatcher\<close>

text \<open>
  C9. \<open>run_search\<close> raises \<open>ValueError\<close>, with the message naming the algorithm,
  exactly when the name is none of \<open>flooding\<close>, \<open>informed_flooding\<close>,
  \<open>random_walk\<close> and \<open>informed_random_walk\<close>; for each of the four names it returns
  the result of that strategy, the informed ones run against a fresh cache built from
  the network.
\<close>

theorem run_search_unknown_strategy:
  "((algorithm \<in> {''flooding'', ''informed_flooding'', ''random_walk'', ''informed_random_walk''}
       \<and> (\<exists>res. run_search rnd net algorithm start_node resource ttl = Inr (res, net)))
     \<or> (algorithm \<notin> {''flooding'', ''informed_flooding'', ''random_walk'', ''informed_random_walk''}
       \<and> run_search rnd net algorithm start_node resource ttl
            = Inl (ValueError (''Algoritmo desconhecido: '' @ algorithm))))
   \<and> run_search rnd net ''flooding'' start_node resource ttl
        = Inr (flooding net start_node resource ttl)
   \<and> run_search rnd net ''informed_flooding'' start_node resource ttl
        = Inr (fst (informed_flooding net start_node resource ttl
                      (Some (update_from_network Cache_init net))), net)
   \<and> run_search rnd net ''random_walk'' start_node resource ttl
        = random_walk rnd net start_node resource ttl
   \<and> (\<exists>res c'. informed_random_walk rnd net start_node resource ttl
                   (Some (update_from_network Cache_init net)) = Inr (res, net, c')
         \<and> run_search rnd net ''informed_random_walk'' start_node resource ttl = Inr (res, net))"
proof -
  let ?c = "Some (update_from_network Cache_init net)"
  from flooding_total[of net start_node resource ttl]
  obtain r1 where r1: "flooding net start_node resource ttl = (r1, net)" by blast
  from informed_flooding_total[of net start_node resource ttl ?c]
  obtain r2 c2 where r2: "informed_flooding net start_node resource ttl ?c = (r2, net, c2)"
    by blast
  from random_walk_total[of rnd net start_node resource ttl]
  obtain r3 where r3: "random_walk rnd net start_node resource ttl = Inr (r3, net)" by blast
  from informed_random_walk_total[of rnd net start_node resource ttl ?c]
  obtain r4 c4
    where r4: "informed_random_walk rnd net start_node resource ttl ?c = Inr (r4, net, c4)"
    by blast
  from r1 r2 r3 r4 show ?thesis
    by (simp add: run_search_def Let_def)
qed

section \<open>The result of an exhausted flooding search\<close>

text \<open>
  C7, as the code has it. From a start node of the network, a flooding search that
  does not find the resource returns found = False with the visited nodes as its path:
  the path holds no node twice, has \<open>nodes_visited\<close> entries and contains the start
  node. \<open>flooding\<close> returns the same list under \<open>all_visited\<close>;
  \<open>informed_flooding\<close> returns no \<open>all_visited\<close> key.
\<close>

theorem flooding_exhausted_result:
  assumes "start_node \<in> fst (get_all_nodes net)"
  shows "(\<not> found (fst (flooding net start_node resource ttl)) \<longrightarrow>
            all_visited (fst (flooding net start_node resource ttl))
              = Some (path (fst (flooding net start_node resource ttl)))
          \<and> distinct (path (fst (flooding net start_node resource ttl)))
          \<and> nodes_visited (fst (flooding net start_node resource ttl))
              = int (length (path (fst (flooding net start_node resource ttl))))
          \<and> start_node \<in> set (path (fst (flooding net start_node resource ttl))))
       \<and> (\<not> found (fst (informed_flooding net start_node resource ttl cache_arg)) \<longrightarrow>
            all_visited (fst (informed_flooding net start_node resource ttl cache_arg)) = None
          \<and> distinct (path (fst (informed_flooding net start_node resource ttl cache_arg)))
          \<and> nodes_visited (fst (informed_flooding net start_node resource ttl cache_arg))
              = int (length (path (fst (informed_flooding net start_node resource ttl cache_arg))))
          \<and> start_node
              \<in> set (path (fst (informed_flooding net start_node resource ttl cache_arg))))"
proof -
  from flooding_total[of net start_node resource ttl] assms
  obtain res V where 1: "flooding net start_node resource ttl = (res, net)"
    "distinct V" "nodes_visited res = int (length V)" "start_node \<in> set V"
    "\<not> found res \<longrightarrow> path res = V \<and> all_visited res = Some V"
    by blast
  from informed_flooding_total[of net start_node resource ttl cache_arg] assms
  obtain res' c' V' where 2: "informed_flooding net start_node resource ttl cache_arg = (res', net, c')"
    "all_visited res' = None"
    "distinct V'" "nodes_visited res' = int (length V')" "start_node \<in> set V'"
    "\<not> found res' \<longrightarrow> path res' = V'"
    by blast
  from 1 2 show ?thesis by auto
qed

theorem flooding_exhausted_result_witness:
  "''A'' \<in> fst (get_all_nodes ring_network)
   \<and> \<not> found (fst (flooding ring_network ''A'' ''z'' 2))
   \<and> all_visited (fst (flooding ring_network ''A'' ''z'' 2))
        = Some (path (fst (flooding ring_network ''A'' ''z'' 2)))
   \<and> path (fst (flooding ring_network ''A'' ''z'' 2)) = [''A'', ''B'', ''D'', ''C'']
   \<and> nodes_visited (fst (flooding ring_network ''A'' ''z'' 2)) = 4
   \<and> \<not> found (fst (informed_flooding ring_network ''A'' ''z'' 2 None))
   \<and> all_visited (fst (informed_flooding ring_network ''A'' ''z'' 2 None)) = None
   \<and> path (fst (informed_flooding ring_network ''A'' ''z'' 2 None)) = [''A'', ''B'', ''D'', ''C'']
   \<and> nodes_visited (fst (informed_flooding ring_network ''A'' ''z'' 2 None)) = 4"
proof -
  have 1: "''A'' \<in> fst (get_all_nodes ring_network)"
    by (simp add: ring_network_def network_defs)
  have 2: "fst (flooding ring_network ''A'' ''z'' 2)
             = \<lparr>found = False, messages = 6, nodes_visited = 4,
                path = [''A'', ''B'', ''D'', ''C''],
                all_visited = Some [''A'', ''B'', ''D'', ''C'']\<rparr>"
    by code_simp
  have 3: "fst (informed_flooding ring_network ''A'' ''z'' 2 None)
             = \<lparr>found = False, messages = 5, nodes_visited = 4,
                path = [''A'', ''B'', ''D'', ''C''], all_visited = None\<rparr>"
    by code_simp
  from flooding_exhausted_result[OF 1, of "''z''" 2 None] 1 2 3 show ?thesis by simp
qed

text \<open>
  C7 fails as stated for \<open>informed_flooding\<close>: its result has no \<open>all_visited\<close>
  key when the search is exhausted.
\<close>

theorem flooding_exhausted_result_counterexample:
  "''A'' \<in> fst (get_all_nodes ring_network)
   \<and> \<not> found (fst (informed_flooding ring_network ''A'' ''z'' 2 None))
   \<and> all_visited (fst (informed_flooding ring_network ''A'' ''z'' 2 None)) = None
   \<and> messages (fst (informed_flooding ring_network ''A'' ''z'' 2 None)) = 5"
proof -
  have 1: "''A'' \<in> fst (get_all_nodes ring_network)"
    by (simp add: ring_network_def network_defs)
  have 3: "fst (informed_flooding ring_network ''A'' ''z'' 2 None)
             = \<lparr>found = False, messages = 5, nodes_visited = 4,
                path = [''A'', ''B'', ''D'', ''C''], all_visited = None\<rparr>"
    by code_simp
  from 1 3 show ?thesis by simp
qed

section \<open>Cache consistency\<close>

text \<open>
  C1. Let the resources dict have distinct keys, as every dict has. After an informed
  flooding or an informed random walk that was given no cache, an empty cache or a
  cache built from the network, the cache the search used is true to the network: every
  pair recorded present is held by the node, and no pair recorded absent is.
\<close>

theorem informed_search_cache_true:
  assumes "distinct (map fst (resources net))"
    and "cache_arg = None \<or> cache_arg = Some Cache_init
         \<or> cache_arg = Some (update_from_network Cache_init net)"
  shows "cache_true net (snd (snd (informed_flooding net start_node resource ttl cache_arg)))
       \<and> (\<exists>res c'. informed_random_walk rnd net start_node resource ttl cache_arg
                      = Inr (res, net, c') \<and> cache_true net c')"
proof -
  let ?c = "case cache_arg of None \<Rightarrow> update_from_network Cache_init net | Some c \<Rightarrow> c"
  from assms(2) have "?c = Cache_init \<or> ?c = update_from_network Cache_init net" by auto
  with cache_true_Cache_init[of net] cache_true_seeded[OF assms(1)]
  have t: "cache_true net ?c" by auto
  from informed_flooding_total[of net start_node resource ttl cache_arg] t
  have "cache_true net (snd (snd (informed_flooding net start_node resource ttl cache_arg)))"
    by auto
  moreover from informed_random_walk_total[of rnd net start_node resource ttl cache_arg] t
  have "\<exists>res c'. informed_random_walk rnd net start_node resource ttl cache_arg
                      = Inr (res, net, c') \<and> cache_true net c'" by blast
  ultimately show ?thesis by blast
qed

theorem informed_search_cache_true_witness:
  "distinct (map fst (resources ring_network))
   \<and> cache_true ring_network
        (snd (snd (informed_flooding ring_network ''A'' ''z'' 2 (Some Cache_init))))
   \<and> has_negative (snd (snd (informed_flooding ring_network ''A'' ''z'' 2 (Some Cache_init))))
        ''B'' ''z''
   \<and> (\<exists>res c'. informed_random_walk (\<lambda>k. k) ring_network ''A'' ''z'' 2 (Some Cache_init)
                   = Inr (res, ring_network, c') \<and> cache_true ring_network c')"
proof -
  have 1: "distinct (map fst (resources ring_network))"
    by (simp add: ring_network_def Network_init_def)
  have 2: "has_negative (snd (snd (informed_flooding ring_network ''A'' ''z'' 2 (Some Cache_init))))
        ''B'' ''z''"
    by (simp add: informed_flooding_def informed_flooding_while.simps informed_flooding_init_def
        informed_flooding_expand_def informed_flooding_visit_def filtered_neighbors_def
        ring_network_def network_defs cache_defs Let_def)
  from informed_search_cache_true[OF 1, of "Some Cache_init" "''A''" "''z''" 2 "\<lambda>k. k"] 1 2
  show ?thesis by simp
qed

section \<open>The candidates of an expansion in informed flooding\<close>








section \<open>Flooding with a larger TTL\<close>

text \<open>
  Two runs of a flooding search that differ in the TTL only proceed in step. The queue
  holds its entries in order of depth, and the depths in it differ by at most one; the
  queue of the run with the smaller TTL consists of the entries of the other queue whose
  depth is below the smaller TTL, which form a prefix of it. Visited set, counters and
  cache agree until the run with the smaller TTL has emptied its queue.
\<close>

definition entry_depth :: "string \<times> int \<times> string list \<Rightarrow> int" where
  "entry_depth e = fst (snd e)"

definition queue_ok :: "(string \<times> int \<times> string list) list \<Rightarrow> bool" where
  "queue_ok q \<longleftrightarrow>
     sorted (map entry_depth q)
     \<and> (\<forall>a\<in>set q. \<forall>b\<in>set q. entry_depth a \<le> entry_depth b + 1)"

definition fl_sim :: "int \<Rightarrow> fl_state \<Rightarrow> fl_state \<Rightarrow> bool" where
  "fl_sim t st st' \<longleftrightarrow>
     fl_network st = fl_network st' \<and> fl_visited st = fl_visited st'
     \<and> fl_messages st = fl_messages st' \<and> fl_nodes_visited st = fl_nodes_visited st'
     \<and> fl_queue st = filter (\<lambda>e. entry_depth e < t) (fl_queue st')"

lemma queue_ok_step:
  assumes "queue_ok (e # q)" and "\<forall>x\<in>set ps. entry_depth x = entry_depth e + 1"
  shows "queue_ok (q @ ps)"
proof -
  from assms(1) have lo: "\<forall>a\<in>set q. entry_depth e \<le> entry_depth a"
    and hi: "\<forall>a\<in>set q. entry_depth a \<le> entry_depth e + 1"
    and s: "sorted (map entry_depth q)"
    by (auto simp: queue_ok_def)
  have "sorted (map entry_depth ps)"
    using assms(2) by (induction ps) auto
  with s hi assms(2) have "sorted (map entry_depth (q @ ps))"
    by (auto simp: sorted_append)
  moreover have "\<forall>a\<in>set (q @ ps). \<forall>b\<in>set (q @ ps). entry_depth a \<le> entry_depth b + 1"
    using lo hi assms(2) by fastforce
  ultimately show ?thesis by (simp add: queue_ok_def)
qed

lemma queue_ok_filter_empty:
  assumes "queue_ok (e # q)" and "\<not> entry_depth e < t"
  shows "filter (\<lambda>x. entry_depth x < t) (e # q) = []"
  using assms by (auto simp: queue_ok_def filter_empty_conv)

lemma flooding_for_pushes:
  "flooding_for resource ttl depth pth ns st = Continue st' \<Longrightarrow>
   \<exists>ps. fl_queue st' = fl_queue st @ ps \<and> (\<forall>x\<in>set ps. entry_depth x = depth + 1)"
proof (induction ns arbitrary: st)
  case Nil
  then show ?case by simp
next
  case (Cons n ns)
  consider (old) "n \<in> set (fl_visited st)"
    | (found) "n \<notin> set (fl_visited st)" "fst (has_resource (fl_network st) n resource)"
    | (new) "n \<notin> set (fl_visited st)" "\<not> fst (has_resource (fl_network st) n resource)"
    by blast
  then show ?case
  proof cases
    case old
    with Cons.prems Cons.IH[of "st\<lparr>fl_messages := fl_messages st + 1\<rparr>"] show ?thesis
      by (auto simp: flooding_visit_old)
  next
    case found
    with Cons.prems show ?thesis by (simp add: flooding_visit_found)
  next
    case new
    let ?st = "st\<lparr>fl_messages := fl_messages st + 1,
                   fl_visited := fl_visited st @ [n],
                   fl_nodes_visited := fl_nodes_visited st + 1,
                   fl_queue := (if depth + 1 < ttl
                                then fl_queue st @ [(n, depth + 1, pth @ [n])]
                                else fl_queue st)\<rparr>"
    from new Cons.prems have "flooding_for resource ttl depth pth ns ?st = Continue st'"
      by (simp add: flooding_visit_new)
    from Cons.IH[OF this] obtain ps where ps: "fl_queue st' = fl_queue ?st @ ps"
      "\<forall>x\<in>set ps. entry_depth x = depth + 1" by blast
    show ?thesis
    proof (cases "depth + 1 < ttl")
      case True
      with ps have "fl_queue st' = fl_queue st @ ((n, depth + 1, pth @ [n]) # ps)
        \<and> (\<forall>x\<in>set ((n, depth + 1, pth @ [n]) # ps). entry_depth x = depth + 1)"
        by (simp add: entry_depth_def)
      then show ?thesis by blast
    next
      case False
      with ps show ?thesis by auto
    qed
  qed
qed

lemma flooding_for_sim:
  assumes "t \<le> t'" and "fl_sim t st st'"
  shows "case (flooding_for resource t depth pth ns st, flooding_for resource t' depth pth ns st') of
           (Return a, Return b) \<Rightarrow> a = b
         | (Continue s1, Continue s2) \<Rightarrow> fl_sim t s1 s2
         | _ \<Rightarrow> False"
  using assms(2)
proof (induction ns arbitrary: st st')
  case Nil
  then show ?case by simp
next
  case (Cons n ns)
  from Cons.prems have eq: "fl_network st = fl_network st'" "fl_visited st = fl_visited st'"
    "fl_messages st = fl_messages st'" "fl_nodes_visited st = fl_nodes_visited st'"
    "fl_queue st = filter (\<lambda>e. entry_depth e < t) (fl_queue st')"
    by (simp_all add: fl_sim_def)
  consider (old) "n \<in> set (fl_visited st)"
    | (found) "n \<notin> set (fl_visited st)" "fst (has_resource (fl_network st) n resource)"
    | (new) "n \<notin> set (fl_visited st)" "\<not> fst (has_resource (fl_network st) n resource)"
    by blast
  then show ?case
  proof cases
    case old
    have "fl_sim t (st\<lparr>fl_messages := fl_messages st + 1\<rparr>)
                   (st'\<lparr>fl_messages := fl_messages st' + 1\<rparr>)"
      using eq by (simp add: fl_sim_def)
    from Cons.IH[OF this] old eq show ?thesis
      by (simp add: flooding_visit_old)
  next
    case found
    with eq show ?thesis by (simp add: flooding_visit_found)
  next
    case new
    let ?u = "\<lambda>tt s. s\<lparr>fl_messages := fl_messages s + 1,
                   fl_visited := fl_visited s @ [n],
                   fl_nodes_visited := fl_nodes_visited s + 1,
                   fl_queue := (if depth + 1 < tt
                                then fl_queue s @ [(n, depth + 1, pth @ [n])]
                                else fl_queue s)\<rparr>"
    have "fl_sim t (?u t st) (?u t' st')"
      using eq assms(1) by (auto simp: fl_sim_def entry_depth_def)
    from Cons.IH[OF this] new eq show ?thesis
      by (simp add: flooding_visit_new)
  qed
qed


lemma flooding_while_messages_ge:
  "fl_inv st \<Longrightarrow> fl_messages st \<le> messages (fst (flooding_while resource ttl st))"
  using flooding_while_result[of st resource ttl] by auto

lemma flooding_while_mono:
  "t \<le> t' \<Longrightarrow> fl_sim t st st' \<Longrightarrow> queue_ok (fl_queue st') \<Longrightarrow> fl_inv st' \<Longrightarrow>
   messages (fst (flooding_while resource t st))
     \<le> messages (fst (flooding_while resource t' st'))"
proof (induction resource t' st' arbitrary: st rule: flooding_while.induct)
  case (1 resource t' st')
  from "1.prems"(2) have eq: "fl_network st = fl_network st'" "fl_visited st = fl_visited st'"
    "fl_messages st = fl_messages st'" "fl_nodes_visited st = fl_nodes_visited st'"
    "fl_queue st = filter (\<lambda>e. entry_depth e < t) (fl_queue st')"
    by (simp_all add: fl_sim_def)
  show ?case
  proof (cases "fl_queue st'")
    case Nil
    with eq show ?thesis
      by (simp add: flooding_while.simps[of resource t st] flooding_while.simps[of resource t' st'])
  next
    case (Cons e q')
    obtain c d p where e: "e = (c, d, p)" by (cases e) auto
    have ok: "queue_ok (e # q')" using "1.prems"(3) Cons by simp
    show ?thesis
    proof (cases "d < t")
      case False
      then have "\<not> entry_depth e < t" by (simp add: e entry_depth_def)
      from queue_ok_filter_empty[OF ok this] eq Cons have "fl_queue st = []" by simp
      then have "messages (fst (flooding_while resource t st)) = fl_messages st'"
        using eq by (simp add: flooding_while.simps[of resource t st])
      with flooding_while_messages_ge[OF "1.prems"(4), of resource t'] show ?thesis by simp
    next
      case True
      let ?q = "filter (\<lambda>e. entry_depth e < t) q'"
      let ?st = "st\<lparr>fl_queue := ?q\<rparr>"
      let ?st' = "st'\<lparr>fl_queue := q'\<rparr>"
      let ?ns = "dict_get (graph (fl_network st')) c []"
      from True have qs: "fl_queue st = e # ?q" using eq Cons by (simp add: e entry_depth_def)
      have sim: "fl_sim t ?st ?st'" using eq by (simp add: fl_sim_def)
      have inv: "fl_inv ?st'" using "1.prems"(4) by (simp add: fl_inv_def)
      have x: "flooding_expand resource t e ?st = flooding_for resource t d p ?ns ?st"
        using True by (simp add: flooding_expand_def e get_neighbors_def eq(1)[symmetric])
      have x': "flooding_expand resource t' e ?st' = flooding_for resource t' d p ?ns ?st'"
        using True "1.prems"(1) by (simp add: flooding_expand_def e get_neighbors_def)
      note rel = flooding_for_sim[OF "1.prems"(1) sim, of resource d p ?ns]
      show ?thesis
      proof (cases "flooding_for resource t' d p ?ns ?st'")
        case (Return b)
        with rel obtain a where a: "flooding_for resource t d p ?ns ?st = Return a" "a = b"
          by (cases "flooding_for resource t d p ?ns ?st") auto
        with Return x x' qs Cons show ?thesis
          by (simp add: flooding_while.simps[of resource t st]
              flooding_while.simps[of resource t' st'])
      next
        case (Continue s2)
        with rel obtain s1 where s1: "flooding_for resource t d p ?ns ?st = Continue s1"
          "fl_sim t s1 s2"
          by (cases "flooding_for resource t d p ?ns ?st") auto
        from flooding_for_pushes[OF Continue] obtain ps
          where ps: "fl_queue s2 = q' @ ps" "\<forall>x\<in>set ps. entry_depth x = d + 1" by auto
        then have "\<forall>x\<in>set ps. entry_depth x = entry_depth e + 1"
          by (simp add: e entry_depth_def)
        from queue_ok_step[OF ok this] ps have ok2: "queue_ok (fl_queue s2)" by simp
        from Continue x' have c': "flooding_expand resource t' e ?st' = Continue s2" by simp
        from flooding_expand_Continue_inv[OF c' inv] have inv2: "fl_inv s2" by simp
        from "1.IH"[OF Cons c' "1.prems"(1) s1(2) ok2 inv2]
        have "messages (fst (flooding_while resource t s1))
                \<le> messages (fst (flooding_while resource t' s2))" .
        moreover have "flooding_while resource t st = flooding_while resource t s1"
          using qs x s1(1) by (simp add: flooding_while.simps[of resource t st])
        moreover have "flooding_while resource t' st' = flooding_while resource t' s2"
          using Cons c' by (simp add: flooding_while.simps[of resource t' st'])
        ultimately show ?thesis by simp
      qed
    qed
  qed
qed

lemma flooding_messages_mono:
  assumes "t \<le> t'"
  shows "messages (fst (flooding net s r t)) \<le> messages (fst (flooding net s r t'))"
proof (cases "s \<in> fst (get_all_nodes net) \<and> \<not> fst (has_resource net s r)")
  case False
  then show ?thesis
    by (auto simp: flooding_def get_all_nodes_def has_resource_def)
next
  case True
  then have f: "\<And>tt. flooding net s r tt = flooding_while r tt (flooding_init net s)"
    by (simp add: flooding_def get_all_nodes_def has_resource_def)
  show ?thesis
  proof (cases "0 < t")
    case True
    have "fl_sim t (flooding_init net s) (flooding_init net s)"
      using True by (simp add: fl_sim_def flooding_init_def entry_depth_def)
    moreover have "queue_ok (fl_queue (flooding_init net s))"
      by (simp add: queue_ok_def flooding_init_def)
    ultimately show ?thesis
      using flooding_while_mono[OF assms _ _ fl_inv_init, of "flooding_init net s" net s r]
      by (simp add: f)
  next
    case False
    then have "flooding_while r t (flooding_init net s)
        = (\<lparr>found = False, messages = 0, nodes_visited = 1, path = [s],
             all_visited = Some [s]\<rparr>, net)"
      by (simp add: flooding_while.simps flooding_init_def flooding_expand_def set_add_def)
    moreover from flooding_while_messages_ge[OF fl_inv_init, of net s r t']
    have "0 \<le> messages (fst (flooding_while r t' (flooding_init net s)))"
      by (simp add: flooding_init_def)
    ultimately show ?thesis by (simp add: f)
  qed
qed

subsection \<open>The same for informed flooding\<close>

definition ifl_sim :: "int \<Rightarrow> ifl_state \<Rightarrow> ifl_state \<Rightarrow> bool" where
  "ifl_sim t st st' \<longleftrightarrow>
     ifl_network st = ifl_network st' \<and> ifl_cache st = ifl_cache st'
     \<and> ifl_visited st = ifl_visited st'
     \<and> ifl_messages st = ifl_messages st' \<and> ifl_nodes_visited st = ifl_nodes_visited st'
     \<and> ifl_queue st = filter (\<lambda>e. entry_depth e < t) (ifl_queue st')"

lemma informed_flooding_for_pushes:
  "informed_flooding_for resource ttl depth pth ns st = Continue st' \<Longrightarrow>
   \<exists>ps. ifl_queue st' = ifl_queue st @ ps \<and> (\<forall>x\<in>set ps. entry_depth x = depth + 1)"
proof (induction ns arbitrary: st)
  case Nil
  then show ?case by simp
next
  case (Cons n ns)
  consider (old) "n \<in> set (ifl_visited st)"
    | (found) "n \<notin> set (ifl_visited st)" "fst (has_resource (ifl_network st) n resource)"
    | (new) "n \<notin> set (ifl_visited st)" "\<not> fst (has_resource (ifl_network st) n resource)"
    by blast
  then show ?case
  proof cases
    case old
    with Cons.prems Cons.IH[of "st\<lparr>ifl_messages := ifl_messages st + 1\<rparr>"] show ?thesis
      by (auto simp: informed_flooding_visit_old)
  next
    case found
    with Cons.prems show ?thesis by (simp add: informed_flooding_visit_found)
  next
    case new
    let ?st = "st\<lparr>ifl_messages := ifl_messages st + 1,
                   ifl_visited := ifl_visited st @ [n],
                   ifl_nodes_visited := ifl_nodes_visited st + 1,
                   ifl_cache := add_negative (ifl_cache st) n resource,
                   ifl_queue := (if depth + 1 < ttl
                                 then ifl_queue st @ [(n, depth + 1, pth @ [n])]
                                 else ifl_queue st)\<rparr>"
    from new Cons.prems have "informed_flooding_for resource ttl depth pth ns ?st = Continue st'"
      by (simp add: informed_flooding_visit_new)
    from Cons.IH[OF this] obtain ps where ps: "ifl_queue st' = ifl_queue ?st @ ps"
      "\<forall>x\<in>set ps. entry_depth x = depth + 1" by blast
    show ?thesis
    proof (cases "depth + 1 < ttl")
      case True
      with ps have "ifl_queue st' = ifl_queue st @ ((n, depth + 1, pth @ [n]) # ps)
        \<and> (\<forall>x\<in>set ((n, depth + 1, pth @ [n]) # ps). entry_depth x = depth + 1)"
        by (simp add: entry_depth_def)
      then show ?thesis by blast
    next
      case False
      with ps show ?thesis by auto
    qed
  qed
qed

lemma informed_flooding_for_sim:
  assumes "t \<le> t'" and "ifl_sim t st st'"
  shows "case (informed_flooding_for resource t depth pth ns st,
               informed_flooding_for resource t' depth pth ns st') of
           (Return a, Return b) \<Rightarrow> a = b
         | (Continue s1, Continue s2) \<Rightarrow> ifl_sim t s1 s2
         | _ \<Rightarrow> False"
  using assms(2)
proof (induction ns arbitrary: st st')
  case Nil
  then show ?case by simp
next
  case (Cons n ns)
  from Cons.prems have eq: "ifl_network st = ifl_network st'" "ifl_cache st = ifl_cache st'"
    "ifl_visited st = ifl_visited st'"
    "ifl_messages st = ifl_messages st'" "ifl_nodes_visited st = ifl_nodes_visited st'"
    "ifl_queue st = filter (\<lambda>e. entry_depth e < t) (ifl_queue st')"
    by (simp_all add: ifl_sim_def)
  consider (old) "n \<in> set (ifl_visited st)"
    | (found) "n \<notin> set (ifl_visited st)" "fst (has_resource (ifl_network st) n resource)"
    | (new) "n \<notin> set (ifl_visited st)" "\<not> fst (has_resource (ifl_network st) n resource)"
    by blast
  then show ?case
  proof cases
    case old
    have "ifl_sim t (st\<lparr>ifl_messages := ifl_messages st + 1\<rparr>)
                    (st'\<lparr>ifl_messages := ifl_messages st' + 1\<rparr>)"
      using eq by (simp add: ifl_sim_def)
    from Cons.IH[OF this] old eq show ?thesis
      by (simp add: informed_flooding_visit_old)
  next
    case found
    with eq show ?thesis by (simp add: informed_flooding_visit_found)
  next
    case new
    let ?u = "\<lambda>tt s. s\<lparr>ifl_messages := ifl_messages s + 1,
                   ifl_visited := ifl_visited s @ [n],
                   ifl_nodes_visited := ifl_nodes_visited s + 1,
                   ifl_cache := add_negative (ifl_cache s) n resource,
                   ifl_queue := (if depth + 1 < tt
                                 then ifl_queue s @ [(n, depth + 1, pth @ [n])]
                                 else ifl_queue s)\<rparr>"
    have "ifl_sim t (?u t st) (?u t' st')"
      using eq assms(1) by (auto simp: ifl_sim_def entry_depth_def)
    from Cons.IH[OF this] new eq show ?thesis
      by (simp add: informed_flooding_visit_new)
  qed
qed

lemma informed_flooding_while_messages_ge:
  "ifl_inv st \<Longrightarrow> ifl_messages st \<le> messages (fst (informed_flooding_while resource ttl st))"
  using informed_flooding_while_result[of st resource ttl] by auto

lemma informed_flooding_while_mono:
  "t \<le> t' \<Longrightarrow> ifl_sim t st st' \<Longrightarrow> queue_ok (ifl_queue st') \<Longrightarrow> ifl_inv st' \<Longrightarrow>
   messages (fst (informed_flooding_while resource t st))
     \<le> messages (fst (informed_flooding_while resource t' st'))"
proof (induction resource t' st' arbitrary: st rule: informed_flooding_while.induct)
  case (1 resource t' st')
  from "1.prems"(2) have eq: "ifl_network st = ifl_network st'" "ifl_cache st = ifl_cache st'"
    "ifl_visited st = ifl_visited st'"
    "ifl_messages st = ifl_messages st'" "ifl_nodes_visited st = ifl_nodes_visited st'"
    "ifl_queue st = filter (\<lambda>e. entry_depth e < t) (ifl_queue st')"
    by (simp_all add: ifl_sim_def)
  show ?case
  proof (cases "ifl_queue st'")
    case Nil
    with eq show ?thesis
      by (simp add: informed_flooding_while.simps[of resource t st]
          informed_flooding_while.simps[of resource t' st'])
  next
    case (Cons e q')
    obtain c d p where e: "e = (c, d, p)" by (cases e) auto
    have ok: "queue_ok (e # q')" using "1.prems"(3) Cons by simp
    show ?thesis
    proof (cases "d < t")
      case False
      then have "\<not> entry_depth e < t" by (simp add: e entry_depth_def)
      from queue_ok_filter_empty[OF ok this] eq Cons have "ifl_queue st = []" by simp
      then have "messages (fst (informed_flooding_while resource t st)) = ifl_messages st'"
        using eq by (simp add: informed_flooding_while.simps[of resource t st])
      with informed_flooding_while_messages_ge[OF "1.prems"(4), of resource t'] show ?thesis
        by simp
    next
      case True
      let ?q = "filter (\<lambda>e. entry_depth e < t) q'"
      let ?st = "st\<lparr>ifl_queue := ?q\<rparr>"
      let ?st' = "st'\<lparr>ifl_queue := q'\<rparr>"
      let ?ns = "filtered_neighbors (ifl_cache st') resource
                   (dict_get (graph (ifl_network st')) c [])"
      from True have qs: "ifl_queue st = e # ?q" using eq Cons by (simp add: e entry_depth_def)
      have sim: "ifl_sim t ?st ?st'" using eq by (simp add: ifl_sim_def)
      have inv: "ifl_inv ?st'" using "1.prems"(4) by (simp add: ifl_inv_def)
      have x: "informed_flooding_expand resource t e ?st
                 = informed_flooding_for resource t d p ?ns ?st"
        using True
        by (simp add: informed_flooding_expand_def e get_neighbors_def eq(1)[symmetric]
            eq(2)[symmetric])
      have x': "informed_flooding_expand resource t' e ?st'
                  = informed_flooding_for resource t' d p ?ns ?st'"
        using True "1.prems"(1) by (simp add: informed_flooding_expand_def e get_neighbors_def)
      note rel = informed_flooding_for_sim[OF "1.prems"(1) sim, of resource d p ?ns]
      show ?thesis
      proof (cases "informed_flooding_for resource t' d p ?ns ?st'")
        case (Return b)
        with rel obtain a
          where a: "informed_flooding_for resource t d p ?ns ?st = Return a" "a = b"
          by (cases "informed_flooding_for resource t d p ?ns ?st") auto
        with Return x x' qs Cons show ?thesis
          by (simp add: informed_flooding_while.simps[of resource t st]
              informed_flooding_while.simps[of resource t' st'])
      next
        case (Continue s2)
        with rel obtain s1
          where s1: "informed_flooding_for resource t d p ?ns ?st = Continue s1"
            "ifl_sim t s1 s2"
          by (cases "informed_flooding_for resource t d p ?ns ?st") auto
        from informed_flooding_for_pushes[OF Continue] obtain ps
          where ps: "ifl_queue s2 = q' @ ps" "\<forall>x\<in>set ps. entry_depth x = d + 1" by auto
        then have "\<forall>x\<in>set ps. entry_depth x = entry_depth e + 1"
          by (simp add: e entry_depth_def)
        from queue_ok_step[OF ok this] ps have ok2: "queue_ok (ifl_queue s2)" by simp
        from Continue x' have c': "informed_flooding_expand resource t' e ?st' = Continue s2"
          by simp
        from informed_flooding_expand_Continue_inv[OF c' inv] have inv2: "ifl_inv s2" by simp
        from "1.IH"[OF Cons c' "1.prems"(1) s1(2) ok2 inv2]
        have "messages (fst (informed_flooding_while resource t s1))
                \<le> messages (fst (informed_flooding_while resource t' s2))" .
        moreover have "informed_flooding_while resource t st
                         = informed_flooding_while resource t s1"
          using qs x s1(1) by (simp add: informed_flooding_while.simps[of resource t st])
        moreover have "informed_flooding_while resource t' st'
                         = informed_flooding_while resource t' s2"
          using Cons c' by (simp add: informed_flooding_while.simps[of resource t' st'])
        ultimately show ?thesis by simp
      qed
    qed
  qed
qed

lemma informed_flooding_messages_mono:
  assumes "t \<le> t'"
  shows "messages (fst (informed_flooding net s r t cache_arg))
           \<le> messages (fst (informed_flooding net s r t' cache_arg))"
proof -
  define c where "c = (case cache_arg of None \<Rightarrow> update_from_network Cache_init net | Some c \<Rightarrow> c)"
  show ?thesis
  proof (cases "s \<in> fst (get_all_nodes net) \<and> \<not> has c s r \<and> \<not> fst (has_resource net s r)")
    case False
    then show ?thesis
      by (auto simp: informed_flooding_def get_all_nodes_def has_resource_def Let_def
          c_def[symmetric])
  next
    case True
    then have f: "\<And>tt. informed_flooding net s r tt cache_arg
                     = informed_flooding_while r tt (informed_flooding_init net c s)"
      by (simp add: informed_flooding_def get_all_nodes_def has_resource_def Let_def
          c_def[symmetric])
    show ?thesis
    proof (cases "0 < t")
      case True
      have "ifl_sim t (informed_flooding_init net c s) (informed_flooding_init net c s)"
        using True by (simp add: ifl_sim_def informed_flooding_init_def entry_depth_def)
      moreover have "queue_ok (ifl_queue (informed_flooding_init net c s))"
        by (simp add: queue_ok_def informed_flooding_init_def)
      ultimately show ?thesis
        using informed_flooding_while_mono[OF assms _ _ ifl_inv_init,
            of "informed_flooding_init net c s" net c s r]
        by (simp add: f)
    next
      case False
      then have "informed_flooding_while r t (informed_flooding_init net c s)
          = (\<lparr>found = False, messages = 0, nodes_visited = 1, path = [s],
               all_visited = None\<rparr>, net, c)"
        by (simp add: informed_flooding_while.simps informed_flooding_init_def
            informed_flooding_expand_def set_add_def)
      moreover from informed_flooding_while_messages_ge[OF ifl_inv_init, of net c s r t']
      have "0 \<le> messages (fst (informed_flooding_while r t' (informed_flooding_init net c s)))"
        by (simp add: informed_flooding_init_def)
      ultimately show ?thesis by (simp add: f)
    qed
  qed
qed

section \<open>The visited nodes of a validated network\<close>

text \<open>
  The adjacency table that \<open>Network.__init__\<close> builds mentions the keys of the
  resources dict and the end points of the edges, and nothing else.
\<close>

lemma set_set_add [simp]: "set (set_add x s) = insert x (set s)"
  by (auto simp: set_add_def)

lemma graph_nodes_Nil [simp]: "graph_nodes [] = {}"
  by (simp add: graph_nodes_def)

lemma graph_nodes_update:
  "graph_nodes (AList.update k v g) \<subseteq> insert k (set v \<union> graph_nodes g)"
  by (induction g) (auto simp: graph_nodes_def)

lemma graph_nodes_add_edge:
  "graph_nodes (add_edge e g) \<subseteq> insert (fst e) (insert (snd e) (graph_nodes g))"
proof -
  obtain a b where e: "e = (a, b)" by (cases e)
  let ?g1 = "AList.update a (set_add b (dict_get g a [])) g"
  have 1: "graph_nodes ?g1 \<subseteq> insert a (insert b (graph_nodes g))"
    using graph_nodes_update[of a "set_add b (dict_get g a [])" g] dict_get_graph_nodes[of g a]
    by auto
  have "graph_nodes (AList.update b (set_add a (dict_get ?g1 b [])) ?g1)
          \<subseteq> insert a (insert b (graph_nodes g))"
    using graph_nodes_update[of b "set_add a (dict_get ?g1 b [])" ?g1]
      dict_get_graph_nodes[of ?g1 b] 1
    by auto
  then show ?thesis by (simp add: add_edge_def e Let_def)
qed

lemma graph_nodes_fold_add_edge:
  "graph_nodes (fold add_edge es g) \<subseteq> graph_nodes g \<union> fst ` set es \<union> snd ` set es"
proof (induction es arbitrary: g)
  case Nil
  then show ?case by simp
next
  case (Cons e es)
  from Cons.IH[of "add_edge e g"] graph_nodes_add_edge[of e g] show ?case by auto
qed

lemma graph_nodes_ensure_node:
  "graph_nodes (ensure_node n g) \<subseteq> insert n (graph_nodes g)"
  using graph_nodes_update[of n "[]" g] by (auto simp: ensure_node_def)

lemma graph_nodes_fold_ensure_node:
  "graph_nodes (fold ensure_node ns g) \<subseteq> set ns \<union> graph_nodes g"
proof (induction ns arbitrary: g)
  case Nil
  then show ?case by simp
next
  case (Cons n ns)
  from Cons.IH[of "ensure_node n g"] graph_nodes_ensure_node[of n g] show ?case by auto
qed

lemma graph_nodes_Network_init:
  assumes "list_all (\<lambda>e. fst e \<in> set (map fst res) \<and> snd e \<in> set (map fst res)) es"
  shows "graph_nodes (graph (Network_init n res es)) \<subseteq> set (map fst res)"
proof -
  from assms have "fst ` set es \<union> snd ` set es \<subseteq> set (map fst res)"
    by (auto simp: list_all_iff)
  moreover from graph_nodes_fold_add_edge[of es "[]"]
  have "graph_nodes (fold add_edge es []) \<subseteq> fst ` set es \<union> snd ` set es" by simp
  ultimately have "graph_nodes (fold add_edge es []) \<subseteq> set (map fst res)"
    by (rule order_trans[rotated])
  with graph_nodes_fold_ensure_node[of "map fst res" "fold add_edge es []"]
  have "graph_nodes (fold ensure_node (map fst res) (fold add_edge es [])) \<subseteq> set (map fst res)"
    by blast
  then show ?thesis by (simp add: Network_init_def)
qed

lemma visited_bound:
  assumes "distinct V" and "set V \<subseteq> set ks" and "distinct ks"
  shows "int (length V) \<le> int (length ks)"
proof -
  have "card (set V) \<le> card (set ks)" using assms(2) by (intro card_mono) auto
  with assms(1,3) show ?thesis by (simp add: distinct_card)
qed

lemma nodes_visited_bound:
  assumes "distinct (map fst (resources net))"
    and "graph_nodes (graph net) \<subseteq> set (map fst (resources net))"
  shows "nodes_visited (fst (flooding net s r ttl)) \<le> int (length (resources net))
       \<and> nodes_visited (fst (informed_flooding net s r ttl cache_arg))
            \<le> int (length (resources net))"
proof (cases "s \<in> fst (get_all_nodes net)")
  case False
  then show ?thesis
    by (simp add: flooding_def informed_flooding_def get_all_nodes_def Let_def)
next
  case True
  then have s: "s \<in> set (map fst (resources net))" by (simp add: get_all_nodes_def)
  from flooding_total[of net s r ttl] True
  obtain res V where 1: "flooding net s r ttl = (res, net)" "distinct V"
    "nodes_visited res = int (length V)" "set V \<subseteq> insert s (graph_nodes (graph net))"
    by blast
  from informed_flooding_total[of net s r ttl cache_arg] True
  obtain res' c' V' where 2: "informed_flooding net s r ttl cache_arg = (res', net, c')"
    "distinct V'" "nodes_visited res' = int (length V')"
    "set V' \<subseteq> insert s (graph_nodes (graph net))"
    by blast
  from 1(4) 2(4) s assms(2) have "set V \<subseteq> set (map fst (resources net))"
    "set V' \<subseteq> set (map fst (resources net))" by auto
  from visited_bound[OF 1(2) this(1) assms(1)] visited_bound[OF 2(2) this(2) assms(1)] 1 2
  show ?thesis by simp
qed

text \<open>
  C4. For both flooding strategies, with the network, the start node, the resource
  and the cache argument fixed, the number of messages does not decrease when the TTL
  grows. For a network built by \<open>Network.__init__\<close> from a configuration that passes
  the checks of the validator used here (\<open>num_nodes\<close> is the number of entries of the
  resources dict, and both end points of every edge are keys of it), \<open>nodes_visited\<close>
  never exceeds \<open>num_nodes\<close>.
\<close>

theorem flooding_messages_monotone_nodes_bounded:
  assumes "ttl \<le> ttl'"
  shows "messages (fst (flooding net start_node resource ttl))
           \<le> messages (fst (flooding net start_node resource ttl'))
       \<and> messages (fst (informed_flooding net start_node resource ttl cache_arg))
           \<le> messages (fst (informed_flooding net start_node resource ttl' cache_arg))
       \<and> (net = Network_init n res es \<and> n = int (length res) \<and> distinct (map fst res)
            \<and> list_all (\<lambda>e. fst e \<in> set (map fst res) \<and> snd e \<in> set (map fst res)) es
          \<longrightarrow> nodes_visited (fst (flooding net start_node resource ttl)) \<le> num_nodes net
            \<and> nodes_visited (fst (informed_flooding net start_node resource ttl cache_arg))
                \<le> num_nodes net)"
proof -
  have "nodes_visited (fst (flooding net start_node resource ttl)) \<le> num_nodes net
            \<and> nodes_visited (fst (informed_flooding net start_node resource ttl cache_arg))
                \<le> num_nodes net"
    if v: "net = Network_init n res es" "n = int (length res)" "distinct (map fst res)"
      "list_all (\<lambda>e. fst e \<in> set (map fst res) \<and> snd e \<in> set (map fst res)) es"
  proof -
    have r: "resources net = res" "num_nodes net = int (length res)"
      using v(1,2) by (simp_all add: Network_init_def)
    from graph_nodes_Network_init[OF v(4), of n] v(1) r
    have "graph_nodes (graph net) \<subseteq> set (map fst (resources net))" by simp
    from nodes_visited_bound[OF _ this, of start_node resource ttl cache_arg] v(3) r
    show ?thesis by simp
  qed
  with flooding_messages_mono[OF assms, of net start_node resource]
    informed_flooding_messages_mono[OF assms, of net start_node resource cache_arg]
  show ?thesis by blast
qed

theorem flooding_messages_monotone_nodes_bounded_witness:
  "(2::int) \<le> 3
   \<and> ring_network = Network_init 4 [(''A'', [''x'']), (''B'', []), (''C'', [''y'']), (''D'', [])]
                       [(''A'', ''B''), (''B'', ''C''), (''C'', ''D''), (''D'', ''A'')]
   \<and> (4::int) = int (length [(''A'', [''x'']), (''B'', []), (''C'', [''y'']), (''D'', [])])
   \<and> distinct (map fst [(''A'', [''x'']), (''B'', []), (''C'', [''y'']), (''D'', [])])
   \<and> list_all (\<lambda>e. fst e \<in> set (map fst [(''A'', [''x'']), (''B'', []), (''C'', [''y'']), (''D'', [])])
                   \<and> snd e \<in> set (map fst [(''A'', [''x'']), (''B'', []), (''C'', [''y'']), (''D'', [])]))
        [(''A'', ''B''), (''B'', ''C''), (''C'', ''D''), (''D'', ''A'')]
   \<and> messages (fst (flooding ring_network ''A'' ''z'' 2)) = 6
   \<and> messages (fst (flooding ring_network ''A'' ''z'' 3)) = 8
   \<and> messages (fst (flooding ring_network ''A'' ''z'' 2))
        \<le> messages (fst (flooding ring_network ''A'' ''z'' 3))
   \<and> messages (fst (informed_flooding ring_network ''A'' ''z'' 2 None))
        \<le> messages (fst (informed_flooding ring_network ''A'' ''z'' 3 None))
   \<and> nodes_visited (fst (flooding ring_network ''A'' ''z'' 2)) \<le> num_nodes ring_network
   \<and> nodes_visited (fst (informed_flooding ring_network ''A'' ''z'' 2 None))
        \<le> num_nodes ring_network"
proof -
  let ?res = "[(''A'', [''x'']), (''B'', []), (''C'', [''y'']), (''D'', [])]"
  let ?es = "[(''A'', ''B''), (''B'', ''C''), (''C'', ''D''), (''D'', ''A'')]"
  have 1: "(2::int) \<le> 3" by simp
  have 2: "ring_network = Network_init 4 ?res ?es" by (simp add: ring_network_def)
  have 3: "(4::int) = int (length ?res)" by simp
  have 4: "distinct (map fst ?res)" by simp
  have 5: "list_all (\<lambda>e. fst e \<in> set (map fst ?res) \<and> snd e \<in> set (map fst ?res)) ?es"
    by simp
  have 6: "messages (fst (flooding ring_network ''A'' ''z'' 2)) = 6" by code_simp
  have 7: "messages (fst (flooding ring_network ''A'' ''z'' 3)) = 8" by code_simp
  note inst = flooding_messages_monotone_nodes_bounded[OF 1,
      of ring_network "''A''" "''z''" None 4 ?res ?es]
  from inst have A: "messages (fst (flooding ring_network ''A'' ''z'' 2))
        \<le> messages (fst (flooding ring_network ''A'' ''z'' 3))" by (rule conjunct1)
  from inst have B: "messages (fst (informed_flooding ring_network ''A'' ''z'' 2 None))
        \<le> messages (fst (informed_flooding ring_network ''A'' ''z'' 3 None))"
    by (rule conjunct2[THEN conjunct1])
  from inst have C: "ring_network = Network_init 4 ?res ?es \<and> 4 = int (length ?res)
       \<and> distinct (map fst ?res)
       \<and> list_all (\<lambda>e. fst e \<in> set (map fst ?res) \<and> snd e \<in> set (map fst ?res)) ?es
     \<longrightarrow> nodes_visited (fst (flooding ring_network ''A'' ''z'' 2)) \<le> num_nodes ring_network
       \<and> nodes_visited (fst (informed_flooding ring_network ''A'' ''z'' 2 None))
            \<le> num_nodes ring_network"
    by (rule conjunct2[THEN conjunct2])
  have "ring_network = Network_init 4 ?res ?es \<and> 4 = int (length ?res)
       \<and> distinct (map fst ?res)
       \<and> list_all (\<lambda>e. fst e \<in> set (map fst ?res) \<and> snd e \<in> set (map fst ?res)) ?es"
    by (intro conjI 2 3 4 5)
  with C have D: "nodes_visited (fst (flooding ring_network ''A'' ''z'' 2)) \<le> num_nodes ring_network
       \<and> nodes_visited (fst (informed_flooding ring_network ''A'' ''z'' 2 None))
            \<le> num_nodes ring_network" by (rule mp)
  show ?thesis
    by (intro conjI 1 2 3 4 5 6 7 A B D[THEN conjunct1] D[THEN conjunct2])
qed

end
